theory Spec2Isabelle
  imports Main "HOL-Library.Word" "HOL-Library.Sublist"
begin

section \<open>Bytes, memory and buffers\<close>

text \<open>
  A \<open>uint8_t\<close> is a \<^typ>\<open>char\<close>. A C pointer \<open>uint8_t *data\<close> is a pair of the
  byte array it points into (\<open>m\<close>) and an index into that array (\<open>data\<close>), so that
  \<open>data[k]\<close> is \<open>rd m (data + k)\<close> and \<open>data[-1]\<close> is \<open>rd m (data - 1)\<close>. A read
  past the end of the array gives the NUL byte. \<open>size_t\<close> values are natural numbers.
\<close>

abbreviation NL :: char where "NL \<equiv> CHR 0x0A"
abbreviation CR :: char where "CR \<equiv> CHR 0x0D"
abbreviation TAB :: char where "TAB \<equiv> CHR 0x09"
abbreviation SP :: char where "SP \<equiv> CHR '' ''"
abbreviation BQ :: char where "BQ \<equiv> CHR 0x60"

definition rd :: "string \<Rightarrow> nat \<Rightarrow> char" where
  "rd m k = (if k < length m then m ! k else CHR 0x00)"

text \<open>The \<open>n\<close> bytes at \<open>p\<close>: what a \<open>struct buf {p, n, 0, 0}\<close> view shows.\<close>

definition view :: "string \<Rightarrow> nat \<Rightarrow> nat \<Rightarrow> string" where
  "view m p n = map (rd m) [p ..< p + n]"

text \<open>
  \<open>isalnum\<close> and \<open>tolower\<close> of \<open>ctype.h\<close>, in the C locale.
\<close>

definition isalnum :: "char \<Rightarrow> bool" where
  "isalnum c = (let n = (of_char c :: nat) in
     (48 \<le> n \<and> n \<le> 57) \<or> (65 \<le> n \<and> n \<le> 90) \<or> (97 \<le> n \<and> n \<le> 122))"

definition tolower :: "char \<Rightarrow> char" where
  "tolower c = (let n = (of_char c :: nat) in
     if 65 \<le> n \<and> n \<le> 90 then char_of (n + 32) else c)"

text \<open>
  In the parser (\<open>markdown.c\<close>) a \<open>struct buf\<close> that is written to is modelled by its
  contents \<open>data[0..size)\<close>; there \<open>bufgrow\<close> is taken to succeed (no allocation
  failure, sizes below the 16 MiB cap), so that \<open>bufput\<close> and \<open>bufputc\<close> append. The
  buffer with its capacity, for \<open>buffer.c\<close> and \<open>houdini_html_e.c\<close>, follows below.
\<close>

definition bufput :: "string \<Rightarrow> string \<Rightarrow> string" where
  "bufput ob bytes = ob @ bytes"

definition bufputc :: "string \<Rightarrow> char \<Rightarrow> string" where
  "bufputc ob c = ob @ [c]"

text \<open>
  The loop \<open>while (i < size && p(i)) i++\<close>, and its mirror image
  \<open>while (i > lo && p(i)) i--\<close>.
\<close>

function skip_while :: "(nat \<Rightarrow> bool) \<Rightarrow> nat \<Rightarrow> nat \<Rightarrow> nat" where
  "skip_while p sz i = (if i < sz \<and> p i then skip_while p sz (Suc i) else i)"
  by pat_completeness auto
termination
  by (relation "measure (\<lambda>(p, sz, i). sz - i)") auto

declare skip_while.simps [simp del]

function skip_back :: "(nat \<Rightarrow> bool) \<Rightarrow> nat \<Rightarrow> nat \<Rightarrow> nat" where
  "skip_back p lo i = (if lo < i \<and> p i then skip_back p lo (i - 1) else i)"
  by pat_completeness auto
termination
  by (relation "measure (\<lambda>(p, lo, i). i)") auto

declare skip_back.simps [simp del]

text \<open>What the two loops return; later termination proofs rest on these bounds.\<close>

lemma skip_while_step: "i < sz \<Longrightarrow> p i \<Longrightarrow> skip_while p sz i = skip_while p sz (Suc i)"
  by (subst skip_while.simps) simp

lemma skip_while_done: "\<not> (i < sz \<and> p i) \<Longrightarrow> skip_while p sz i = i"
  by (subst skip_while.simps) auto

lemma skip_while_ge: "i \<le> skip_while p sz i"
  by (induction p sz i rule: skip_while.induct) (subst skip_while.simps, auto)

lemma skip_while_le: "i \<le> sz \<Longrightarrow> skip_while p sz i \<le> sz"
  by (induction p sz i rule: skip_while.induct) (subst skip_while.simps, auto)

lemma skip_while_all: "i \<le> k \<Longrightarrow> k < skip_while p sz i \<Longrightarrow> p k"
proof (induction p sz i rule: skip_while.induct)
  case (1 p sz i)
  show ?case
  proof (cases "i < sz \<and> p i")
    case True
    then have eq: "skip_while p sz i = skip_while p sz (Suc i)"
      by (subst skip_while.simps) simp
    show ?thesis
    proof (cases "k = i")
      case True
      then show ?thesis using \<open>i < sz \<and> p i\<close> by simp
    next
      case False
      then show ?thesis using 1 True eq by auto
    qed
  next
    case False
    then have "skip_while p sz i = i" by (subst skip_while.simps) auto
    then show ?thesis using 1 by simp
  qed
qed

lemma skip_while_stop: "skip_while p sz i < sz \<Longrightarrow> \<not> p (skip_while p sz i)"
proof (induction p sz i rule: skip_while.induct)
  case (1 p sz i)
  show ?case
  proof (cases "i < sz \<and> p i")
    case True
    then have eq: "skip_while p sz i = skip_while p sz (Suc i)"
      by (subst skip_while.simps) simp
    then show ?thesis using 1 True by simp
  next
    case False
    then have "skip_while p sz i = i" by (subst skip_while.simps) auto
    then show ?thesis using 1 False by auto
  qed
qed
lemma skip_back_le: "skip_back p lo i \<le> i"
proof (induction p lo i rule: skip_back.induct)
  case (1 p lo i)
  show ?case
  proof (cases "lo < i \<and> p i")
    case True
    then have "skip_back p lo i = skip_back p lo (i - 1)" by (subst skip_back.simps) simp
    then show ?thesis using 1 True by auto
  next
    case False
    then have "skip_back p lo i = i" by (subst skip_back.simps) auto
    then show ?thesis by simp
  qed
qed

lemma skip_back_ge: "lo \<le> i \<Longrightarrow> lo \<le> skip_back p lo i"
proof (induction p lo i rule: skip_back.induct)
  case (1 p lo i)
  show ?case
  proof (cases "lo < i \<and> p i")
    case True
    then have "skip_back p lo i = skip_back p lo (i - 1)" by (subst skip_back.simps) simp
    then show ?thesis using 1 True by auto
  next
    case False
    then have "skip_back p lo i = i" by (subst skip_back.simps) auto
    then show ?thesis using 1 by simp
  qed
qed

lemma skip_back_all: "skip_back p lo i < k \<Longrightarrow> k \<le> i \<Longrightarrow> p k"
proof (induction p lo i rule: skip_back.induct)
  case (1 p lo i)
  show ?case
  proof (cases "lo < i \<and> p i")
    case True
    then have eq: "skip_back p lo i = skip_back p lo (i - 1)" by (subst skip_back.simps) simp
    show ?thesis
    proof (cases "k = i")
      case True
      then show ?thesis using \<open>lo < i \<and> p i\<close> by simp
    next
      case False
      then show ?thesis using 1 True eq by auto
    qed
  next
    case False
    then have "skip_back p lo i = i" by (subst skip_back.simps) auto
    then show ?thesis using 1 by simp
  qed
qed

lemma skip_back_stop: "lo < skip_back p lo i \<Longrightarrow> \<not> p (skip_back p lo i)"
proof (induction p lo i rule: skip_back.induct)
  case (1 p lo i)
  show ?case
  proof (cases "lo < i \<and> p i")
    case True
    then have eq: "skip_back p lo i = skip_back p lo (i - 1)" by (subst skip_back.simps) simp
    then show ?thesis using 1 True by simp
  next
    case False
    then have "skip_back p lo i = i" by (subst skip_back.simps) auto
    then show ?thesis using 1 False by auto
  qed
qed

section \<open>The renderer callback table and the parser state\<close>

datatype mkd_autolink = MKDA_NOT_AUTOLINK | MKDA_NORMAL | MKDA_EMAIL

text \<open>
  The extension bitmask \<open>ext_flags\<close>; the bit values are declared in \<open>markdown.h\<close>, the
  parser only tests single bits, so each bit is a field.
\<close>

record extensions =
  MKDEXT_NO_INTRA_EMPHASIS :: bool
  MKDEXT_TABLES :: bool
  MKDEXT_FENCED_CODE :: bool
  MKDEXT_AUTOLINK :: bool
  MKDEXT_STRIKETHROUGH :: bool
  MKDEXT_INS :: bool
  MKDEXT_SPACE_HEADERS :: bool
  MKDEXT_SUPERSCRIPT :: bool
  MKDEXT_LAX_SPACING :: bool
  MKDEXT_FOOTNOTES :: bool

text \<open>The list flags \<open>MKD_LIST_ORDERED\<close>, \<open>MKD_LI_BLOCK\<close> and the internal \<open>MKD_LI_END\<close>.\<close>

record list_flags =
  MKD_LIST_ORDERED :: bool
  MKD_LI_BLOCK :: bool
  MKD_LI_END :: bool

text \<open>The table cell flags: alignment bits and \<open>MKD_TABLE_HEADER\<close>.\<close>

record table_flags =
  MKD_TABLE_ALIGN_L :: bool
  MKD_TABLE_ALIGN_R :: bool
  MKD_TABLE_HEADER :: bool

text \<open>
  \<open>struct sd_callbacks\<close>: every slot is a nullable function pointer. A callback
  receives the output buffer it may write to, its arguments (a nullable \<open>struct buf *\<close>
  is a \<^typ>\<open>string option\<close>) and the opaque renderer state, and yields the new buffer
  contents and opaque state; span-level callbacks also yield their \<open>int\<close> result, of
  which the parser only tests whether it is zero.
\<close>

record 'o sd_callbacks =
  cb_blockcode :: "(string \<Rightarrow> string \<Rightarrow> string option \<Rightarrow> 'o \<Rightarrow> string \<times> 'o) option"
  cb_blockquote :: "(string \<Rightarrow> string \<Rightarrow> 'o \<Rightarrow> string \<times> 'o) option"
  cb_blockhtml :: "(string \<Rightarrow> string \<Rightarrow> 'o \<Rightarrow> string \<times> 'o) option"
  cb_header :: "(string \<Rightarrow> string \<Rightarrow> nat \<Rightarrow> 'o \<Rightarrow> string \<times> 'o) option"
  cb_hrule :: "(string \<Rightarrow> 'o \<Rightarrow> string \<times> 'o) option"
  cb_list :: "(string \<Rightarrow> string \<Rightarrow> list_flags \<Rightarrow> 'o \<Rightarrow> string \<times> 'o) option"
  cb_listitem :: "(string \<Rightarrow> string \<Rightarrow> list_flags \<Rightarrow> 'o \<Rightarrow> string \<times> 'o) option"
  cb_paragraph :: "(string \<Rightarrow> string \<Rightarrow> 'o \<Rightarrow> string \<times> 'o) option"
  cb_table :: "(string \<Rightarrow> string \<Rightarrow> string \<Rightarrow> 'o \<Rightarrow> string \<times> 'o) option"
  cb_table_row :: "(string \<Rightarrow> string \<Rightarrow> 'o \<Rightarrow> string \<times> 'o) option"
  cb_table_cell :: "(string \<Rightarrow> string \<Rightarrow> table_flags \<Rightarrow> 'o \<Rightarrow> string \<times> 'o) option"
  cb_footnotes :: "(string \<Rightarrow> string \<Rightarrow> 'o \<Rightarrow> string \<times> 'o) option"
  cb_footnote_def :: "(string \<Rightarrow> string \<Rightarrow> nat \<Rightarrow> 'o \<Rightarrow> string \<times> 'o) option"
  cb_autolink :: "(string \<Rightarrow> string \<Rightarrow> mkd_autolink \<Rightarrow> 'o \<Rightarrow> (bool \<times> string) \<times> 'o) option"
  cb_codespan :: "(string \<Rightarrow> string option \<Rightarrow> 'o \<Rightarrow> (bool \<times> string) \<times> 'o) option"
  cb_double_emphasis :: "(string \<Rightarrow> string \<Rightarrow> 'o \<Rightarrow> (bool \<times> string) \<times> 'o) option"
  cb_emphasis :: "(string \<Rightarrow> string \<Rightarrow> 'o \<Rightarrow> (bool \<times> string) \<times> 'o) option"
  cb_image ::
    "(string \<Rightarrow> string option \<Rightarrow> string option \<Rightarrow> string option \<Rightarrow> 'o \<Rightarrow> (bool \<times> string) \<times> 'o) option"
  cb_linebreak :: "(string \<Rightarrow> 'o \<Rightarrow> (bool \<times> string) \<times> 'o) option"
  cb_link ::
    "(string \<Rightarrow> string option \<Rightarrow> string option \<Rightarrow> string option \<Rightarrow> 'o \<Rightarrow> (bool \<times> string) \<times> 'o) option"
  cb_raw_html_tag :: "(string \<Rightarrow> string \<Rightarrow> 'o \<Rightarrow> (bool \<times> string) \<times> 'o) option"
  cb_triple_emphasis :: "(string \<Rightarrow> string \<Rightarrow> 'o \<Rightarrow> (bool \<times> string) \<times> 'o) option"
  cb_strikethrough :: "(string \<Rightarrow> string \<Rightarrow> 'o \<Rightarrow> (bool \<times> string) \<times> 'o) option"
  cb_superscript :: "(string \<Rightarrow> string \<Rightarrow> 'o \<Rightarrow> (bool \<times> string) \<times> 'o) option"
  cb_ins :: "(string \<Rightarrow> string \<Rightarrow> 'o \<Rightarrow> (bool \<times> string) \<times> 'o) option"
  cb_footnote_ref :: "(string \<Rightarrow> nat \<Rightarrow> 'o \<Rightarrow> (bool \<times> string) \<times> 'o) option"
  cb_entity :: "(string \<Rightarrow> string \<Rightarrow> 'o \<Rightarrow> string \<times> 'o) option"
  cb_normal_text :: "(string \<Rightarrow> string \<Rightarrow> 'o \<Rightarrow> string \<times> 'o) option"
  cb_doc_header :: "(string \<Rightarrow> 'o \<Rightarrow> string \<times> 'o) option"
  cb_doc_footer :: "(string \<Rightarrow> 'o \<Rightarrow> string \<times> 'o) option"
  cb_outline :: "(string \<Rightarrow> 'o \<Rightarrow> string \<times> 'o) option"

text \<open>\<open>struct link_ref\<close>; the \<open>next\<close> pointer is the tail of the bucket's list.\<close>

record link_ref =
  lr_id :: "32 word"
  lr_link :: "string option"
  lr_title :: "string option"

text \<open>
  \<open>struct footnote_ref\<close>. A \<open>footnote_list\<close> is the list of its items from \<open>head\<close> to
  \<open>tail\<close>, \<open>count\<close> is its length; \<open>footnotes_found\<close> owns the references and
  \<open>footnotes_used\<close> points to them, so it is a list of positions in \<open>footnotes_found\<close>.
\<close>

record footnote_ref =
  fr_id :: "32 word"
  fr_is_used :: bool
  fr_num :: nat
  fr_contents :: string

datatype markdown_char_t =
  MD_CHAR_NONE | MD_CHAR_EMPHASIS | MD_CHAR_CODESPAN | MD_CHAR_LINEBREAK | MD_CHAR_LINK
  | MD_CHAR_LANGLE | MD_CHAR_ESCAPE | MD_CHAR_ENTITITY | MD_CHAR_AUTOLINK_URL
  | MD_CHAR_AUTOLINK_EMAIL | MD_CHAR_AUTOLINK_WWW | MD_CHAR_SUPERSCRIPT

text \<open>
  \<open>struct sd_markdown\<close>. Of the two \<open>work_bufs\<close> stacks the model keeps the \<open>size\<close>
  fields (the buffers themselves are local values of the functions that hold them).
  \<open>ncalls\<close> is not a field of the C struct: it counts the renderer callbacks invoked
  so far, so that "no callback was invoked" can be stated.
\<close>

record 'o sd_markdown =
  cb :: "'o sd_callbacks"
  opaque :: 'o
  refs :: "link_ref list list"
  footnotes_found :: "footnote_ref list"
  footnotes_used :: "nat list"
  active_char :: "char \<Rightarrow> markdown_char_t"
  work_bufs_BLOCK :: nat
  work_bufs_SPAN :: nat
  ext_flags :: extensions
  max_nesting :: nat
  in_link_body :: bool
  ncalls :: nat

text \<open>Calling a callback: \<open>g\<close> is the callback applied to all arguments but \<open>opaque\<close>.\<close>

definition invoke :: "('o \<Rightarrow> 'r \<times> 'o) \<Rightarrow> 'o sd_markdown \<Rightarrow> 'r \<times> 'o sd_markdown" where
  "invoke g rndr =
     (let (r, opq) = g (opaque rndr)
      in (r, rndr\<lparr>opaque := opq, ncalls := Suc (ncalls rndr)\<rparr>))"

text \<open>
  \<open>sd_markdown_new\<close> (it asserts \<open>max_nesting > 0\<close>): the callbacks are copied, both
  pools start empty and the active-character table is filled from the callbacks and
  extensions. The reference table and footnote lists are reset by every render.
\<close>

definition sd_markdown_new :: "extensions \<Rightarrow> nat \<Rightarrow> 'o sd_callbacks \<Rightarrow> 'o \<Rightarrow> 'o sd_markdown" where
  "sd_markdown_new extensions max_nest callbacks opq =
     (let ac = (\<lambda>c. MD_CHAR_NONE);
          ac = (if cb_emphasis callbacks \<noteq> None \<or> cb_double_emphasis callbacks \<noteq> None
                   \<or> cb_triple_emphasis callbacks \<noteq> None
                then (let ac = ac(CHR ''*'' := MD_CHAR_EMPHASIS, CHR ''_'' := MD_CHAR_EMPHASIS);
                          ac = (if MKDEXT_STRIKETHROUGH extensions
                                then ac(CHR ''~'' := MD_CHAR_EMPHASIS) else ac)
                      in if MKDEXT_INS extensions then ac(CHR ''+'' := MD_CHAR_EMPHASIS) else ac)
                else ac);
          ac = (if cb_codespan callbacks \<noteq> None then ac(BQ := MD_CHAR_CODESPAN) else ac);
          ac = (if cb_linebreak callbacks \<noteq> None then ac(NL := MD_CHAR_LINEBREAK) else ac);
          ac = (if cb_image callbacks \<noteq> None \<or> cb_link callbacks \<noteq> None
                then ac(CHR ''['' := MD_CHAR_LINK) else ac);
          ac = ac(CHR ''<'' := MD_CHAR_LANGLE, CHR 0x5C := MD_CHAR_ESCAPE,
                  CHR ''&'' := MD_CHAR_ENTITITY);
          ac = (if MKDEXT_AUTOLINK extensions
                then ac(CHR '':'' := MD_CHAR_AUTOLINK_URL, CHR ''@'' := MD_CHAR_AUTOLINK_EMAIL,
                        CHR ''w'' := MD_CHAR_AUTOLINK_WWW)
                else ac);
          ac = (if MKDEXT_SUPERSCRIPT extensions then ac(CHR ''^'' := MD_CHAR_SUPERSCRIPT) else ac)
      in \<lparr>cb = callbacks, opaque = opq, refs = replicate 8 [], footnotes_found = [],
          footnotes_used = [], active_char = ac, work_bufs_BLOCK = 0, work_bufs_SPAN = 0,
          ext_flags = extensions, max_nesting = max_nest, in_link_body = False, ncalls = 0\<rparr>)"

text \<open>A callback table with every slot \<open>NULL\<close>, and no extension enabled.\<close>

definition no_callbacks :: "'o sd_callbacks" where
  "no_callbacks =
     \<lparr>cb_blockcode = None, cb_blockquote = None, cb_blockhtml = None, cb_header = None,
      cb_hrule = None, cb_list = None, cb_listitem = None, cb_paragraph = None,
      cb_table = None, cb_table_row = None, cb_table_cell = None, cb_footnotes = None,
      cb_footnote_def = None, cb_autolink = None, cb_codespan = None,
      cb_double_emphasis = None, cb_emphasis = None, cb_image = None, cb_linebreak = None,
      cb_link = None, cb_raw_html_tag = None, cb_triple_emphasis = None,
      cb_strikethrough = None, cb_superscript = None, cb_ins = None, cb_footnote_ref = None,
      cb_entity = None, cb_normal_text = None, cb_doc_header = None, cb_doc_footer = None,
      cb_outline = None\<rparr>"

definition no_extensions :: extensions where
  "no_extensions =
     \<lparr>MKDEXT_NO_INTRA_EMPHASIS = False, MKDEXT_TABLES = False, MKDEXT_FENCED_CODE = False,
      MKDEXT_AUTOLINK = False, MKDEXT_STRIKETHROUGH = False, MKDEXT_INS = False,
      MKDEXT_SPACE_HEADERS = False, MKDEXT_SUPERSCRIPT = False, MKDEXT_LAX_SPACING = False,
      MKDEXT_FOOTNOTES = False\<rparr>"

section \<open>\<open>struct buf\<close> with its capacity (\<open>buffer.c\<close>)\<close>

text \<open>
  For the functions of \<open>buffer.c\<close> and of \<open>houdini_html_e.c\<close> a \<open>struct buf\<close> is the
  record of its contents \<open>data[0..size)\<close> (so \<open>size\<close> is the length of \<open>buf_data\<close>), its
  allocated size and its reallocation unit. \<open>realloc\<close> is taken to succeed; the cap
  \<open>BUFFER_MAX_ALLOC_SIZE\<close> of \<open>bufgrow\<close> is kept, so an append can be refused. A
  function that starts with \<open>assert(buf && buf->unit)\<close> yields \<open>None\<close> when the
  assertion fails (the buffer itself is never \<open>NULL\<close> here). Sizes are natural numbers.
\<close>

record buf =
  buf_data :: string
  buf_asize :: nat
  buf_unit :: nat

datatype buferror_t = BUF_OK | BUF_ENOMEM

definition BUFFER_MAX_ALLOC_SIZE :: nat where
  "BUFFER_MAX_ALLOC_SIZE = 1024 * 1024 * 16"

text \<open>
  The loop \<open>while (neoasz < neosz) neoasz += buf->unit\<close> of \<open>bufgrow\<close>; it is only
  reached with a unit that is not 0.
\<close>

function bufgrow_neoasz :: "nat \<Rightarrow> nat \<Rightarrow> nat \<Rightarrow> nat" where
  "bufgrow_neoasz unit neosz neoasz =
     (if neoasz < neosz \<and> unit \<noteq> 0 then bufgrow_neoasz unit neosz (neoasz + unit) else neoasz)"
  by pat_completeness auto
termination
  by (relation "measure (\<lambda>(unit, neosz, neoasz). neosz - neoasz)") auto

declare bufgrow_neoasz.simps [simp del]

definition bufgrow :: "buf \<Rightarrow> nat \<Rightarrow> (buferror_t \<times> buf) option" where
  "bufgrow b neosz =
     (if buf_unit b = 0 then None
      else if neosz > BUFFER_MAX_ALLOC_SIZE then Some (BUF_ENOMEM, b)
      else if buf_asize b \<ge> neosz then Some (BUF_OK, b)
      else Some (BUF_OK,
                 b\<lparr>buf_asize := bufgrow_neoasz (buf_unit b) neosz (buf_asize b + buf_unit b)\<rparr>))"

text \<open>
  \<open>bufput\<close>, \<open>bufputs\<close> and \<open>bufputc\<close> on the record, with the suffix \<open>_cap\<close> (the
  names without suffix are the parser's appends, whose growth is taken to succeed):
  when \<open>bufgrow\<close> refuses, nothing is appended.
\<close>

definition bufput_cap :: "buf \<Rightarrow> string \<Rightarrow> buf option" where
  "bufput_cap b bytes =
     (if buf_unit b = 0 then None
      else if length (buf_data b) + length bytes > buf_asize b then
        (case bufgrow b (length (buf_data b) + length bytes) of
           None \<Rightarrow> None
         | Some (r, b') \<Rightarrow>
             if r \<noteq> BUF_OK then Some b' else Some (b'\<lparr>buf_data := buf_data b' @ bytes\<rparr>))
      else Some (b\<lparr>buf_data := buf_data b @ bytes\<rparr>))"

definition bufputs_cap :: "buf \<Rightarrow> string \<Rightarrow> buf option" where
  "bufputs_cap b str = bufput_cap b (takeWhile (\<lambda>c. c \<noteq> CHR 0x00) str)"

definition bufputc_cap :: "buf \<Rightarrow> char \<Rightarrow> buf option" where
  "bufputc_cap b c =
     (if buf_unit b = 0 then None
      else if length (buf_data b) + 1 > buf_asize b then
        (case bufgrow b (length (buf_data b) + 1) of
           None \<Rightarrow> None
         | Some (r, b') \<Rightarrow>
             if r \<noteq> BUF_OK then Some b' else Some (b'\<lparr>buf_data := buf_data b' @ [c]\<rparr>))
      else Some (b\<lparr>buf_data := buf_data b @ [c]\<rparr>))"

subsection \<open>\<open>bufprefix\<close>\<close>





section \<open>HTML escaping (\<open>houdini_html_e.c\<close>)\<close>

text \<open>
  \<open>HTML_ESCAPE_TABLE\<close> maps a byte to the index of its replacement in
  \<open>HTML_ESCAPES\<close>, 0 for a byte that is copied.
\<close>

definition HTML_ESCAPE_TABLE :: "nat list" where
  "HTML_ESCAPE_TABLE =
    [0, 0, 0, 0, 0, 0, 0, 0, 0, 0, 0, 0, 0, 0, 0, 0,
     0, 0, 0, 0, 0, 0, 0, 0, 0, 0, 0, 0, 0, 0, 0, 0,
     0, 0, 1, 0, 0, 0, 2, 3, 0, 0, 0, 0, 0, 0, 0, 4,
     0, 0, 0, 0, 0, 0, 0, 0, 0, 0, 0, 0, 5, 0, 6, 0,
     0, 0, 0, 0, 0, 0, 0, 0, 0, 0, 0, 0, 0, 0, 0, 0,
     0, 0, 0, 0, 0, 0, 0, 0, 0, 0, 0, 0, 0, 0, 0, 0,
     0, 0, 0, 0, 0, 0, 0, 0, 0, 0, 0, 0, 0, 0, 0, 0,
     0, 0, 0, 0, 0, 0, 0, 0, 0, 0, 0, 0, 0, 0, 0, 0,
     0, 0, 0, 0, 0, 0, 0, 0, 0, 0, 0, 0, 0, 0, 0, 0,
     0, 0, 0, 0, 0, 0, 0, 0, 0, 0, 0, 0, 0, 0, 0, 0,
     0, 0, 0, 0, 0, 0, 0, 0, 0, 0, 0, 0, 0, 0, 0, 0,
     0, 0, 0, 0, 0, 0, 0, 0, 0, 0, 0, 0, 0, 0, 0, 0,
     0, 0, 0, 0, 0, 0, 0, 0, 0, 0, 0, 0, 0, 0, 0, 0,
     0, 0, 0, 0, 0, 0, 0, 0, 0, 0, 0, 0, 0, 0, 0, 0,
     0, 0, 0, 0, 0, 0, 0, 0, 0, 0, 0, 0, 0, 0, 0, 0,
     0, 0, 0, 0, 0, 0, 0, 0, 0, 0, 0, 0, 0, 0, 0, 0]"

definition HTML_ESCAPES :: "string list" where
  "HTML_ESCAPES = [[CHR 0x00], ''&quot;'', ''&amp;'', ''&#39;'', ''&#47;'', ''&lt;'', ''&gt;'']"

definition ESCAPE_GROW_FACTOR :: "nat \<Rightarrow> nat" where
  "ESCAPE_GROW_FACTOR x = (x * 12) div 10"

text \<open>
  The outer loop of \<open>houdini_escape_html0\<close> from position \<open>i\<close>; \<open>secure\<close> is the flag
  as a truth value. The source bytes are \<open>sz\<close> bytes of the array \<open>m\<close> from index \<open>src\<close>.
\<close>

function houdini_escape_html0_loop :: "buf \<Rightarrow> string \<Rightarrow> nat \<Rightarrow> nat \<Rightarrow> bool \<Rightarrow> nat \<Rightarrow> buf option" where
  "houdini_escape_html0_loop ob m src sz secure i =
     (if i < sz then
        (let org = i;
             i = skip_while (\<lambda>k. HTML_ESCAPE_TABLE ! of_char (rd m (src + k)) = 0) sz i
         in case (if i > org then bufput_cap ob (view m (src + org) (i - org)) else Some ob) of
              None \<Rightarrow> None
            | Some ob \<Rightarrow>
                if i \<ge> sz then Some ob
                else
                  (let esc = HTML_ESCAPE_TABLE ! of_char (rd m (src + i))
                   in case (if rd m (src + i) = CHR ''/'' \<and> \<not> secure
                            then bufputc_cap ob (CHR ''/'')
                            else bufputs_cap ob (HTML_ESCAPES ! esc)) of
                        None \<Rightarrow> None
                      | Some ob \<Rightarrow> houdini_escape_html0_loop ob m src sz secure (i + 1)))
      else Some ob)"
  by pat_completeness auto
termination
proof (relation "measure (\<lambda>(ob, m, src, sz, secure, i). sz - i)", goal_cases)
  case 1
  show ?case by simp
next
  case (2 ob m src sz secure i org i' ob1 esc ob2)
  have "i \<le> i'" using 2(2,3) skip_while_ge by simp
  then show ?case using 2 by auto
qed

declare houdini_escape_html0_loop.simps [simp del]

definition houdini_escape_html0 :: "buf \<Rightarrow> string \<Rightarrow> nat \<Rightarrow> nat \<Rightarrow> bool \<Rightarrow> buf option" where
  "houdini_escape_html0 ob m src sz secure =
     (case bufgrow ob (ESCAPE_GROW_FACTOR sz) of
        None \<Rightarrow> None
      | Some (r, ob) \<Rightarrow>
          if r \<noteq> BUF_OK then Some ob else houdini_escape_html0_loop ob m src sz secure 0)"

section \<open>Inline triggers\<close>

subsection \<open>\<open>char_codespan\<close>\<close>

text \<open>
  The delimiter search
  \<open>for (end = nb; end < size && i < nb; end++) { if (data[end] == '`') i++; else i = 0; }\<close>,
  returning the final \<open>(end, i)\<close>.
\<close>

function codespan_delim :: "string \<Rightarrow> nat \<Rightarrow> nat \<Rightarrow> nat \<Rightarrow> nat \<Rightarrow> nat \<Rightarrow> nat \<times> nat" where
  "codespan_delim m data sz nb en i =
     (if en < sz \<and> i < nb
      then codespan_delim m data sz nb (Suc en) (if rd m (data + en) = BQ then Suc i else 0)
      else (en, i))"
  by pat_completeness auto
termination
  by (relation "measure (\<lambda>(m, data, sz, nb, en, i). sz - en)") auto

declare codespan_delim.simps [simp del]

text \<open>
  \<open>char_codespan\<close> assumes that the \<open>codespan\<close> callback is set (\<open>sd_markdown_new\<close>
  makes the backtick active only then); with no callback the model returns 0.
\<close>

definition char_codespan ::
  "string \<Rightarrow> 'o sd_markdown \<Rightarrow> string \<Rightarrow> nat \<Rightarrow> nat \<Rightarrow> nat \<Rightarrow> nat \<times> string \<times> 'o sd_markdown" where
  "char_codespan ob rndr m data offset sz =
     (let nb = skip_while (\<lambda>k. rd m (data + k) = BQ) sz 0;
          (en, i) = codespan_delim m data sz nb nb 0
      in if i < nb \<and> en \<ge> sz then (0, ob, rndr)
         else
           (let f_begin = skip_while (\<lambda>k. rd m (data + k) = SP) en nb;
                f_end = skip_back (\<lambda>k. rd m (data + k - 1) = SP) nb (en - nb);
                work = (if f_begin < f_end
                        then Some (view m (data + f_begin) (f_end - f_begin)) else None)
            in case cb_codespan (cb rndr) of
                 None \<Rightarrow> (0, ob, rndr)
               | Some f \<Rightarrow>
                   (let ((r, ob'), rndr') = invoke (f ob work) rndr
                    in (if r then en else 0, ob', rndr'))))"

subsection \<open>\<open>char_entity\<close>\<close>

definition char_entity ::
  "string \<Rightarrow> 'o sd_markdown \<Rightarrow> string \<Rightarrow> nat \<Rightarrow> nat \<Rightarrow> nat \<Rightarrow> nat \<times> string \<times> 'o sd_markdown" where
  "char_entity ob rndr m data offset sz =
     (let en = 1;
          en = (if en < sz \<and> rd m (data + en) = CHR ''#'' then en + 1 else en);
          en = skip_while (\<lambda>k. isalnum (rd m (data + k))) sz en
      in if en < sz \<and> rd m (data + en) = CHR '';''
         then
           (let en = en + 1
            in case cb_entity (cb rndr) of
                 Some f \<Rightarrow>
                   (let (ob', rndr') = invoke (f ob (view m data en)) rndr in (en, ob', rndr'))
               | None \<Rightarrow> (en, bufput ob (view m data en), rndr))
         else (0, ob, rndr))"

section \<open>Reference tables\<close>

text \<open>
  \<open>hash_link_ref\<close> over the \<open>length\<close> bytes of the name, in \<open>unsigned int\<close> (32 bits)
  arithmetic.
\<close>

definition REF_TABLE_SIZE :: nat where
  "REF_TABLE_SIZE = 8"

definition hash_link_ref :: "string \<Rightarrow> 32 word" where
  "hash_link_ref name =
     foldl (\<lambda>hash c. of_char (tolower c) + push_bit 6 hash + push_bit 16 hash - hash)
       0 name"

text \<open>
  \<open>add_link_ref\<close> puts a zeroed reference with the hash of the name in front of its
  bucket and returns it; the caller then stores the link and title through the pointer,
  which is \<open>store_link_ref\<close>: the head of the bucket is replaced.
\<close>

definition add_link_ref :: "link_ref list list \<Rightarrow> string \<Rightarrow> link_ref \<times> link_ref list list" where
  "add_link_ref references name =
     (let ref = \<lparr>lr_id = hash_link_ref name, lr_link = None, lr_title = None\<rparr>;
          b = unat (lr_id ref mod of_nat REF_TABLE_SIZE)
      in (ref, references[b := ref # references ! b]))"

definition store_link_ref :: "link_ref list list \<Rightarrow> link_ref \<Rightarrow> link_ref list list" where
  "store_link_ref references ref =
     (let b = unat (lr_id ref mod of_nat REF_TABLE_SIZE)
      in references[b := ref # tl (references ! b)])"


text \<open>
  \<open>create_footnote_ref\<close> and \<open>add_footnote_ref\<close>: a new reference goes to the tail of
  the list. \<open>find_footnote_ref\<close> yields the position of the first reference with the
  hash of the name.
\<close>

definition create_footnote_ref :: "string \<Rightarrow> footnote_ref" where
  "create_footnote_ref name =
     \<lparr>fr_id = hash_link_ref name, fr_is_used = False, fr_num = 0, fr_contents = []\<rparr>"

definition add_footnote_ref :: "'a list \<Rightarrow> 'a \<Rightarrow> 'a list" where
  "add_footnote_ref lst ref = lst @ [ref]"

fun find_footnote_ref_from :: "footnote_ref list \<Rightarrow> 32 word \<Rightarrow> nat \<Rightarrow> nat option" where
  "find_footnote_ref_from [] hash k = None"
| "find_footnote_ref_from (r # rs) hash k =
     (if fr_id r = hash then Some k else find_footnote_ref_from rs hash (Suc k))"

definition find_footnote_ref :: "footnote_ref list \<Rightarrow> string \<Rightarrow> nat option" where
  "find_footnote_ref lst name = find_footnote_ref_from lst (hash_link_ref name) 0"

section \<open>Reference recognition and the first pass\<close>

text \<open>\<open>is_empty\<close>: the length of the line when it is empty, 0 otherwise.\<close>

definition is_empty :: "string \<Rightarrow> nat \<Rightarrow> nat \<Rightarrow> nat" where
  "is_empty m data sz =
     (let i = skip_while (\<lambda>k. rd m (data + k) \<noteq> NL \<and> rd m (data + k) = SP) sz 0
      in if i < sz \<and> rd m (data + i) \<noteq> NL then 0 else i + 1)"

text \<open>
  The prologue shared by \<open>is_footnote\<close> and \<open>is_ref\<close>: up to three leading spaces, a
  fourth one rejects. It is entered with \<open>beg + 3 < end\<close>.
\<close>

definition leading_spaces :: "string \<Rightarrow> nat \<Rightarrow> nat option" where
  "leading_spaces data beg =
     (if rd data beg = SP then
        (if rd data (beg + 1) = SP then
           (if rd data (beg + 2) = SP then
              (if rd data (beg + 3) = SP then None else Some 3)
            else Some 2)
         else Some 1)
      else Some 0)"

text \<open>
  \<open>is_ref\<close>, in the stages its comments name. The id part, from the first byte of the
  line to the colon: the positions of the id and the position after the colon.
\<close>

definition is_ref_id :: "string \<Rightarrow> nat \<Rightarrow> nat \<Rightarrow> (nat \<times> nat \<times> nat) option" where
  "is_ref_id data beg en =
    (if beg + 3 \<ge> en then None else
     case leading_spaces data beg of None \<Rightarrow> None | Some i \<Rightarrow>
     let i = i + beg in
     if rd data i \<noteq> CHR ''['' then None else
     let i = i + 1;
         id_offset = i;
         i = skip_while (\<lambda>k. rd data k \<noteq> NL \<and> rd data k \<noteq> CR \<and> rd data k \<noteq> CHR '']'') en i in
     if i \<ge> en \<or> rd data i \<noteq> CHR '']'' then None else
     let id_end = i;
         i = i + 1 in
     if i \<ge> en \<or> rd data i \<noteq> CHR '':'' then None else
     Some (id_offset, id_end, i + 1))"

text \<open>
  The spacer after the colon (spaces, one line ending, spaces) and the link, optionally
  in angle brackets: the positions of the link and the position after it.
\<close>

definition is_ref_link :: "string \<Rightarrow> nat \<Rightarrow> nat \<Rightarrow> (nat \<times> nat \<times> nat) option" where
  "is_ref_link data en i =
    (let i = skip_while (\<lambda>k. rd data k = SP) en i;
         i = (if i < en \<and> (rd data i = NL \<or> rd data i = CR) then
                (let i = i + 1
                 in if i < en \<and> rd data i = CR \<and> rd data (i - 1) = NL then i + 1 else i)
              else i);
         i = skip_while (\<lambda>k. rd data k = SP) en i in
     if i \<ge> en then None else
     let i = (if rd data i = CHR ''<'' then i + 1 else i);
         link_offset = i;
         i = skip_while (\<lambda>k. rd data k \<noteq> SP \<and> rd data k \<noteq> NL \<and> rd data k \<noteq> CR) en i;
         link_end = (if rd data (i - 1) = CHR ''>'' then i - 1 else i)
     in Some (link_offset, link_end, i))"

text \<open>
  The optional spacer after the link and the end of the line: \<open>None\<close> when something
  else than a line ending or a title opener follows, otherwise \<open>line_end\<close> (0 when the
  line has not ended) and the position where a title may start.
\<close>

definition is_ref_line_end :: "string \<Rightarrow> nat \<Rightarrow> nat \<Rightarrow> (nat \<times> nat) option" where
  "is_ref_line_end data en i =
    (let i = skip_while (\<lambda>k. rd data k = SP) en i in
     if i < en \<and> rd data i \<noteq> NL \<and> rd data i \<noteq> CR \<and> rd data i \<noteq> CHR 0x27
          \<and> rd data i \<noteq> CHR 0x22 \<and> rd data i \<noteq> CHR ''(''
     then None else
     let line_end = (if i \<ge> en \<or> rd data i = CR \<or> rd data i = NL then i else 0);
         line_end = (if i + 1 < en \<and> rd data i = NL \<and> rd data (i + 1) = CR then i + 1
                     else line_end);
         i = (if line_end \<noteq> 0 then skip_while (\<lambda>k. rd data k = SP) en (line_end + 1) else i)
     in Some (line_end, i))"

text \<open>The optional title: \<open>(title_offset, title_end, line_end)\<close>.\<close>

definition is_ref_title :: "string \<Rightarrow> nat \<Rightarrow> nat \<Rightarrow> nat \<Rightarrow> nat \<times> nat \<times> nat" where
  "is_ref_title data en i line_end =
    (if i + 1 < en \<and> (rd data i = CHR 0x27 \<or> rd data i = CHR 0x22 \<or> rd data i = CHR ''('')
     then
       (let i = i + 1;
            title_offset = i;
            i = skip_while (\<lambda>k. rd data k \<noteq> NL \<and> rd data k \<noteq> CR) en i;
            title_end = (if i + 1 < en \<and> rd data i = NL \<and> rd data (i + 1) = CR
                         then i + 1 else i);
            i = i - 1;
            i = skip_back (\<lambda>k. rd data k = SP) title_offset i
        in if i > title_offset
              \<and> (rd data i = CHR 0x27 \<or> rd data i = CHR 0x22 \<or> rd data i = CHR '')'')
           then (title_offset, i, title_end)
           else (title_offset, title_end, line_end))
     else (0, 0, line_end))"

text \<open>
  \<open>is_ref\<close>: \<open>None\<close> for the result 0, otherwise \<open>last\<close> and the reference table with
  the new reference.
\<close>

definition is_ref ::
  "string \<Rightarrow> nat \<Rightarrow> nat \<Rightarrow> link_ref list list \<Rightarrow> (nat \<times> link_ref list list) option" where
  "is_ref data beg en references =
    (case is_ref_id data beg en of None \<Rightarrow> None | Some (id_offset, id_end, i) \<Rightarrow>
     case is_ref_link data en i of None \<Rightarrow> None | Some (link_offset, link_end, i) \<Rightarrow>
     case is_ref_line_end data en i of None \<Rightarrow> None | Some (line_end, i) \<Rightarrow>
     let (title_offset, title_end, line_end) = is_ref_title data en i line_end in
     if line_end = 0 \<or> link_end = link_offset then None else
     let (ref, references) = add_link_ref references (view data id_offset (id_end - id_offset));
         ref = ref\<lparr>lr_link := Some (bufput [] (view data link_offset (link_end - link_offset)))\<rparr>;
         ref = (if title_end > title_offset
                then ref\<lparr>lr_title := Some (bufput [] (view data title_offset (title_end - title_offset)))\<rparr>
                else ref)
     in Some (line_end, store_link_ref references ref))"

text \<open>
  The line loop of \<open>is_footnote\<close>, from \<open>(i, start, in_empty, contents)\<close> to the final
  \<open>(start, contents)\<close>. \<open>nl_skip\<close> is the step over one line ending, \<open>\n\<close>, \<open>\r\<close> or
  \<open>\r\n\<close>.
\<close>

definition nl_skip :: "string \<Rightarrow> nat \<Rightarrow> nat \<Rightarrow> nat" where
  "nl_skip data en i =
     (if i < en \<and> (rd data i = NL \<or> rd data i = CR) then
        (let i = i + 1
         in if i < en \<and> rd data i = NL \<and> rd data (i - 1) = CR then i + 1 else i)
      else i)"

lemma nl_skip_ge: "i \<le> nl_skip data en i"
  by (simp add: nl_skip_def Let_def)

function is_footnote_lines ::
  "string \<Rightarrow> nat \<Rightarrow> nat \<Rightarrow> nat \<Rightarrow> bool \<Rightarrow> string \<Rightarrow> nat \<times> string" where
  "is_footnote_lines data en i start in_empty contents =
     (if i < en then
        (let i = skip_while (\<lambda>k. rd data k \<noteq> NL \<and> rd data k \<noteq> CR) en i
         in if is_empty data start (i - start) \<noteq> 0 then
              (let i = nl_skip data en i
               in if i < en then is_footnote_lines data en i i True contents else (i, contents))
            else
              (let ind = skip_while (\<lambda>k. start + k < en \<and> rd data (start + k) = SP) 4 0
               in if in_empty \<and> ind = 0 then (start, contents)
                  else
                    (let contents = (if in_empty then bufputc contents NL else contents);
                         contents = bufput contents (view data (start + ind) (i - start - ind));
                         contents = (if i < en then bufput contents [NL] else contents);
                         i = (if i < en then nl_skip data en i else i)
                     in if i < en then is_footnote_lines data en i i False contents
                        else (i, contents))))
      else (start, contents))"
  by pat_completeness auto
termination
proof (relation "measure (\<lambda>(data, en, i, start, in_empty, contents). en - i)", goal_cases)
  case 1
  show ?case by simp
next
  case (2 data en i start in_empty contents i1 i2)
  have "i \<le> i1" using 2(2) skip_while_ge by simp
  moreover have "i1 < en \<longrightarrow> rd data i1 = NL \<or> rd data i1 = CR"
    using skip_while_stop[of "\<lambda>k. rd data k \<noteq> NL \<and> rd data k \<noteq> CR" en i] 2(2) by auto
  then have "i1 < i2"
    using 2(4,5) by (auto simp: nl_skip_def Let_def split: if_splits)
  ultimately show ?case using 2(5) by simp
next
  case (3 data en i start in_empty contents i1 ind c1 c2 c3 i2)
  have "i \<le> i1" using 3(2) skip_while_ge by simp
  moreover have "i1 < en \<longrightarrow> rd data i1 = NL \<or> rd data i1 = CR"
    using skip_while_stop[of "\<lambda>k. rd data k \<noteq> NL \<and> rd data k \<noteq> CR" en i] 3(2) by auto
  then have "i1 < i2"
    using 3(9,10) by (auto simp: nl_skip_def Let_def split: if_splits)
  ultimately show ?case using 3(10) by simp
qed

declare is_footnote_lines.simps [simp del]

text \<open>
  \<open>is_footnote\<close>. The head of a footnote definition, from the first byte of the line
  to the first byte of the body: the positions of the id and of the body.
\<close>

definition is_footnote_head :: "string \<Rightarrow> nat \<Rightarrow> nat \<Rightarrow> (nat \<times> nat \<times> nat) option" where
  "is_footnote_head data beg en =
    (if beg + 3 \<ge> en then None else
     case leading_spaces data beg of None \<Rightarrow> None | Some i \<Rightarrow>
     let i = i + beg in
     if rd data i \<noteq> CHR ''['' then None else
     let i = i + 1 in
     if i \<ge> en \<or> rd data i \<noteq> CHR ''^'' then None else
     let i = i + 1;
         id_offset = i;
         i = skip_while (\<lambda>k. rd data k \<noteq> NL \<and> rd data k \<noteq> CR \<and> rd data k \<noteq> CHR '']'') en i in
     if i \<ge> en \<or> rd data i \<noteq> CHR '']'' then None else
     let id_end = i;
         i = i + 1 in
     if i \<ge> en \<or> rd data i \<noteq> CHR '':'' then None else
     let i = i + 1;
         i = skip_while (\<lambda>k. rd data k = SP) en i;
         i = nl_skip data en i;
         i = skip_while (\<lambda>k. rd data k = SP) en i in
     if i \<ge> en \<or> rd data i = NL \<or> rd data i = CR then None else
     Some (id_offset, id_end, i))"

text \<open>
  \<open>is_footnote\<close>: \<open>None\<close> for the result 0, otherwise \<open>last\<close> and the list with the new
  footnote.
\<close>

definition is_footnote ::
  "string \<Rightarrow> nat \<Rightarrow> nat \<Rightarrow> footnote_ref list \<Rightarrow> (nat \<times> footnote_ref list) option" where
  "is_footnote data beg en lst =
    (case is_footnote_head data beg en of None \<Rightarrow> None | Some (id_offset, id_end, i) \<Rightarrow>
     let (start, contents) = is_footnote_lines data en i i False [];
         ref = create_footnote_ref (view data id_offset (id_end - id_offset));
         ref = ref\<lparr>fr_contents := contents\<rparr>
     in Some (start, add_footnote_ref lst ref))"

text \<open>
  \<open>expand_tabs\<close>: the \<open>do { bufputc(ob, ' '); tab++; } while (tab % 4)\<close> of one tab, and
  the loop over the line.
\<close>

function expand_tabs_pad :: "string \<Rightarrow> nat \<Rightarrow> string \<times> nat" where
  "expand_tabs_pad ob tab =
     (let ob = bufputc ob SP; tab = tab + 1
      in if tab mod 4 \<noteq> 0 then expand_tabs_pad ob tab else (ob, tab))"
  by pat_completeness auto
termination
  by (relation "measure (\<lambda>(ob, tab). 3 - tab mod 4)") (auto, presburger)

declare expand_tabs_pad.simps [simp del]

function expand_tabs_loop :: "string \<Rightarrow> string \<Rightarrow> nat \<Rightarrow> nat \<Rightarrow> nat \<Rightarrow> nat \<Rightarrow> string" where
  "expand_tabs_loop ob m line sz i tab =
     (if i < sz then
        (let org = i;
             i = skip_while (\<lambda>k. rd m (line + k) \<noteq> TAB) sz i;
             tab = tab + (i - org);
             ob = (if i > org then bufput ob (view m (line + org) (i - org)) else ob)
         in if i \<ge> sz then ob
            else (let (ob, tab) = expand_tabs_pad ob tab
                  in expand_tabs_loop ob m line sz (i + 1) tab))
      else ob)"
  by pat_completeness auto
termination
proof (relation "measure (\<lambda>(ob, m, line, sz, i, tab). sz - i)", goal_cases)
  case 1
  show ?case by simp
next
  case (2 ob m line sz i tab org i1 tab1 ob1 x ob2 tab2)
  have "i \<le> i1" using 2(2,3) skip_while_ge by simp
  then show ?case using 2 by auto
qed

declare expand_tabs_loop.simps [simp del]

definition expand_tabs :: "string \<Rightarrow> string \<Rightarrow> nat \<Rightarrow> nat \<Rightarrow> string" where
  "expand_tabs ob m line sz = expand_tabs_loop ob m line sz 0 0"

text \<open>
  The inner loop of the first pass over the line endings that follow a line:
  \<open>while (end < doc_size && (document[end] == '\n' || document[end] == '\r'))\<close>.
\<close>

function pass1_newlines :: "string \<Rightarrow> string \<Rightarrow> nat \<Rightarrow> nat \<Rightarrow> string \<times> nat" where
  "pass1_newlines text document doc_size en =
     (if en < doc_size \<and> (rd document en = NL \<or> rd document en = CR) then
        pass1_newlines
          (if rd document en = NL \<or> (en + 1 < doc_size \<and> rd document (en + 1) \<noteq> NL)
           then bufputc text NL else text)
          document doc_size (en + 1)
      else (text, en))"
  by pat_completeness auto
termination
  by (relation "measure (\<lambda>(text, document, doc_size, en). doc_size - en)") auto

declare pass1_newlines.simps [simp del]

text \<open>
  Every recognizer that succeeds ends after the position it started from, and so does
  the copy of a line; the loop of the first pass terminates because of this.
\<close>

lemma leading_spaces_le: "leading_spaces data beg = Some i \<Longrightarrow> i \<le> 3"
  by (auto simp: leading_spaces_def split: if_splits)

lemma skip_while_ge': "j \<le> i \<Longrightarrow> j \<le> skip_while p sz i"
  using skip_while_ge le_trans by blast

lemma is_ref_id_progress:
  "is_ref_id data beg en = Some (id_offset, id_end, i) \<Longrightarrow> beg < i"
  unfolding is_ref_id_def Let_def
  by (auto split: if_splits option.splits simp: less_Suc_eq_le intro!: skip_while_ge' le_SucI)

lemma is_ref_link_progress:
  "is_ref_link data en i = Some (link_offset, link_end, j) \<Longrightarrow> i \<le> j"
  unfolding is_ref_link_def Let_def
  by (auto split: if_splits intro!: skip_while_ge' le_SucI)

lemma is_ref_line_end_progress:
  assumes "is_ref_line_end data en i = Some (line_end, j)"
  shows "i \<le> j \<and> (line_end \<noteq> 0 \<longrightarrow> i \<le> line_end)"
proof -
  define a where "a = skip_while (\<lambda>k. rd data k = SP) en i"
  have 1: "i \<le> a" unfolding a_def by (rule skip_while_ge)
  have 2: "Suc a \<le> skip_while (\<lambda>k. rd data k = SP) en (Suc a)" by (rule skip_while_ge)
  have 3: "Suc (Suc a) \<le> skip_while (\<lambda>k. rd data k = SP) en (Suc (Suc a))" by (rule skip_while_ge)
  show ?thesis
    using assms 1 2 3 unfolding is_ref_line_end_def Let_def a_def[symmetric]
    by (auto split: if_splits)
qed

lemma is_ref_title_progress:
  "is_ref_title data en i line_end = (title_offset, title_end, line_end') \<Longrightarrow>
   line_end' = line_end \<or> i < line_end'"
  unfolding is_ref_title_def Let_def
  by (auto split: if_splits simp: less_Suc_eq_le Suc_le_eq[symmetric] intro!: skip_while_ge' le_SucI)

lemma is_ref_progress:
  assumes "is_ref data beg en references = Some (nxt, references')"
  shows "beg < nxt"
proof -
  from assms obtain id_offset id_end i1 link_offset link_end i2 line_end i3 title_offset title_end
    where a: "is_ref_id data beg en = Some (id_offset, id_end, i1)"
      and b: "is_ref_link data en i1 = Some (link_offset, link_end, i2)"
      and c: "is_ref_line_end data en i2 = Some (line_end, i3)"
      and d: "is_ref_title data en i3 line_end = (title_offset, title_end, nxt)"
      and e: "nxt \<noteq> 0"
    unfolding is_ref_def
    by (auto split: option.splits prod.splits if_splits simp: Let_def)
  have "beg < i1" using a by (rule is_ref_id_progress)
  moreover have "i1 \<le> i2" using b by (rule is_ref_link_progress)
  moreover have "i2 \<le> i3 \<and> (line_end \<noteq> 0 \<longrightarrow> i2 \<le> line_end)" using c by (rule is_ref_line_end_progress)
  moreover have "nxt = line_end \<or> i3 < nxt" using d by (rule is_ref_title_progress)
  ultimately show ?thesis using e by auto
qed

lemma is_footnote_head_progress:
  assumes "is_footnote_head data beg en = Some (id_offset, id_end, i)"
  shows "beg < i"
proof -
  from assms obtain x where i: "i = skip_while (\<lambda>k. rd data k = SP) en
      (nl_skip data en (skip_while (\<lambda>k. rd data k = SP) en
        (Suc (Suc (skip_while (\<lambda>k. rd data k \<noteq> NL \<and> rd data k \<noteq> CR \<and> rd data k \<noteq> CHR '']'') en
           (Suc (Suc (x + beg))))))))"
    unfolding is_footnote_head_def Let_def
    by (auto split: if_splits option.splits)
  define a where
    "a = skip_while (\<lambda>k. rd data k \<noteq> NL \<and> rd data k \<noteq> CR \<and> rd data k \<noteq> CHR '']'') en (Suc (Suc (x + beg)))"
  define b where "b = skip_while (\<lambda>k. rd data k = SP) en (Suc (Suc a))"
  have "Suc (Suc (x + beg)) \<le> a" unfolding a_def by (rule skip_while_ge)
  moreover have "Suc (Suc a) \<le> b" unfolding b_def by (rule skip_while_ge)
  moreover have "b \<le> nl_skip data en b" by (rule nl_skip_ge)
  moreover have "nl_skip data en b \<le> i" unfolding i a_def[symmetric] b_def[symmetric]
    by (rule skip_while_ge)
  ultimately show ?thesis by simp
qed

lemma is_footnote_lines_progress:
  "is_footnote_lines data en i start in_empty contents = (start', contents') \<Longrightarrow>
   start \<le> i \<Longrightarrow> start \<le> start'"
proof (induction data en i start in_empty contents rule: is_footnote_lines.induct)
  case (1 data en i start in_empty contents)
  define i1 where "i1 = skip_while (\<lambda>k. rd data k \<noteq> NL \<and> rd data k \<noteq> CR) en i"
  have i1: "i \<le> i1" unfolding i1_def by (rule skip_while_ge)
  have i2: "i1 \<le> nl_skip data en i1" by (rule nl_skip_ge)
  show ?case
  proof (cases "i < en")
    case False
    then show ?thesis using 1(3) by (subst (asm) is_footnote_lines.simps) simp
  next
    case True
    show ?thesis
    proof (cases "is_empty data start (i1 - start) \<noteq> 0")
      case e: True
      show ?thesis
      proof (cases "nl_skip data en i1 < en")
        case l: True
        have "is_footnote_lines data en (nl_skip data en i1) (nl_skip data en i1) True contents
              = (start', contents')"
          using 1(3) True e l unfolding i1_def
          by (subst (asm) is_footnote_lines.simps) (simp add: Let_def)
        from 1(1)[OF True i1_def[symmetric, THEN sym] e refl l this]
        show ?thesis using 1(4) i1 i2 by simp
      next
        case l: False
        have "start' = nl_skip data en i1"
          using 1(3) True e l unfolding i1_def
          by (subst (asm) is_footnote_lines.simps) (simp add: Let_def)
        then show ?thesis using 1(4) i1 i2 by simp
      qed
    next
      case e: False
      define ind where "ind = skip_while (\<lambda>k. start + k < en \<and> rd data (start + k) = SP) 4 0"
      show ?thesis
      proof (cases "in_empty \<and> ind = 0")
        case b: True
        have "start' = start"
          using 1(3) True e b unfolding i1_def ind_def
          by (subst (asm) is_footnote_lines.simps) (simp add: Let_def)
        then show ?thesis by simp
      next
        case b: False
        define c1 where "c1 = (if in_empty then bufputc contents NL else contents)"
        define c2 where "c2 = bufput c1 (view data (start + ind) (i1 - start - ind))"
        define c3 where "c3 = (if i1 < en then bufput c2 [NL] else c2)"
        define i3 where "i3 = (if i1 < en then nl_skip data en i1 else i1)"
        have i3: "i1 \<le> i3" unfolding i3_def using i2 by simp
        have unf: "is_footnote_lines data en i start in_empty contents
              = (if i3 < en then is_footnote_lines data en i3 i3 False c3 else (i3, c3))"
          using True e b unfolding i1_def ind_def c1_def c2_def c3_def i3_def
          by (subst is_footnote_lines.simps) (auto simp add: Let_def)
        show ?thesis
        proof (cases "i3 < en")
          case l: True
          have "is_footnote_lines data en i3 i3 False c3 = (start', contents')"
            using 1(3) unf l by simp
          from 1(2)[OF True i1_def[symmetric, THEN sym] e ind_def[symmetric, THEN sym] b
              c1_def[symmetric, THEN sym] c2_def[symmetric, THEN sym] c3_def[symmetric, THEN sym]
              i3_def[symmetric, THEN sym] l this]
          show ?thesis using 1(4) i1 i3 by simp
        next
          case l: False
          then have "start' = i3" using 1(3) unf by simp
          then show ?thesis using 1(4) i1 i3 by simp
        qed
      qed
    qed
  qed
qed

lemma is_footnote_progress:
  assumes "is_footnote data beg en lst = Some (nxt, lst')"
  shows "beg < nxt"
proof -
  from assms obtain id_offset id_end i contents
    where a: "is_footnote_head data beg en = Some (id_offset, id_end, i)"
      and b: "is_footnote_lines data en i i False [] = (nxt, contents)"
    unfolding is_footnote_def
    by (auto split: option.splits prod.splits simp: Let_def)
  have "beg < i" using a by (rule is_footnote_head_progress)
  moreover have "i \<le> nxt" using is_footnote_lines_progress[OF b] by simp
  ultimately show ?thesis by simp
qed

lemma pass1_newlines_ge:
  "pass1_newlines tx document doc_size en = (tx', en') \<Longrightarrow> en \<le> en'"
proof (induction tx document doc_size en rule: pass1_newlines.induct)
  case (1 tx document doc_size en)
  show ?case
  proof (cases "en < doc_size \<and> (rd document en = NL \<or> rd document en = CR)")
    case True
    then have "pass1_newlines
          (if rd document en = NL \<or> (en + 1 < doc_size \<and> rd document (en + 1) \<noteq> NL)
           then bufputc tx NL else tx) document doc_size (en + 1) = (tx', en')"
      using 1(2) by (subst (asm) pass1_newlines.simps) simp
    from 1(1)[OF True this] show ?thesis by simp
  next
    case False
    then have "(tx', en') = (tx, en)"
      using 1(2) by (subst (asm) pass1_newlines.simps) auto
    then show ?thesis by simp
  qed
qed

lemma pass1_newlines_gt:
  assumes "pass1_newlines text document doc_size en = (text', en')"
    and "en < doc_size" "rd document en = NL \<or> rd document en = CR"
  shows "en < en'"
proof -
  have "pass1_newlines
          (if rd document en = NL \<or> (en + 1 < doc_size \<and> rd document (en + 1) \<noteq> NL)
           then bufputc text NL else text) document doc_size (en + 1) = (text', en')"
    using assms by (subst (asm) pass1_newlines.simps) simp
  from pass1_newlines_ge[OF this] show ?thesis by simp
qed

text \<open>
  The loop of the first pass, \<open>while (beg < doc_size)\<close>, over the staging buffer, the
  reference table and the list of footnotes found.
\<close>

function pass1 ::
  "bool \<Rightarrow> string \<Rightarrow> nat \<Rightarrow> nat \<Rightarrow> string \<Rightarrow> link_ref list list \<Rightarrow> footnote_ref list
   \<Rightarrow> string \<times> link_ref list list \<times> footnote_ref list" where
  "pass1 footnotes_enabled document doc_size beg text references found =
     (if beg < doc_size then
        (case (if footnotes_enabled then is_footnote document beg doc_size found else None) of
           Some (en, found) \<Rightarrow> pass1 footnotes_enabled document doc_size en text references found
         | None \<Rightarrow>
             (case is_ref document beg doc_size references of
                Some (en, references) \<Rightarrow>
                  pass1 footnotes_enabled document doc_size en text references found
              | None \<Rightarrow>
                  (let en = skip_while (\<lambda>k. rd document k \<noteq> NL \<and> rd document k \<noteq> CR) doc_size beg;
                       text = (if en > beg then expand_tabs text document beg (en - beg) else text);
                       (text, en) = pass1_newlines text document doc_size en
                   in pass1 footnotes_enabled document doc_size en text references found)))
      else (text, references, found))"
  by pat_completeness auto
termination
proof (relation "measure (\<lambda>(fe, document, doc_size, beg, tx, references, found). doc_size - beg)",
    goal_cases)
  case 1
  show ?case by simp
next
  case (2 fe document doc_size beg tx references found en text1 r text2 en2)
  have nl: "pass1_newlines text1 document doc_size en = (text2, en2)"
    using 2(6,7) by simp
  have a: "beg \<le> en" using 2(4) skip_while_ge by simp
  have b: "en \<le> en2" using nl by (rule pass1_newlines_ge)
  have "beg < en2"
  proof (cases "beg < en")
    case True
    then show ?thesis using b by simp
  next
    case False
    then have e: "en = beg" using a by simp
    have "\<not> (rd document en \<noteq> NL \<and> rd document en \<noteq> CR)"
      using skip_while_stop[of "\<lambda>k. rd document k \<noteq> NL \<and> rd document k \<noteq> CR" doc_size beg]
        2(1,4) e by simp
    then show ?thesis
      using pass1_newlines_gt[OF nl] 2(1) e by auto
  qed
  then show ?case using 2(1) by simp
next
  case (3 fe document doc_size beg tx references found r en references')
  have "is_ref document beg doc_size references = Some (en, references')"
    using 3(3,4) by simp
  then have "beg < en" by (rule is_ref_progress)
  then show ?case using 3(1) by simp
next
  case (4 fe document doc_size beg tx references found r en found')
  have "is_footnote document beg doc_size found = Some (en, found')"
    using 4(2,3) by (simp split: if_splits)
  then have "beg < en" by (rule is_footnote_progress)
  then show ?case using 4(1) by simp
qed

declare pass1.simps [simp del]

text \<open>
  The first half of \<open>sd_markdown_render\<close>: the tables are reset, a UTF-8 byte order
  mark is skipped and the first pass runs over the whole document. The result is the
  staging buffer \<open>text\<close> and the parser with its tables filled.
\<close>

definition UTF8_BOM :: string where
  "UTF8_BOM = [CHR 0xEF, CHR 0xBB, CHR 0xBF]"

definition sd_markdown_render_pass1 :: "string \<Rightarrow> 'o sd_markdown \<Rightarrow> string \<times> 'o sd_markdown" where
  "sd_markdown_render_pass1 document md =
     (let doc_size = length document;
          md = md\<lparr>refs := replicate REF_TABLE_SIZE []\<rparr>;
          footnotes_enabled = MKDEXT_FOOTNOTES (ext_flags md);
          md = (if footnotes_enabled then md\<lparr>footnotes_found := [], footnotes_used := []\<rparr> else md);
          beg = (if doc_size \<ge> 3 \<and> take 3 document = UTF8_BOM then 3 else 0);
          (text, references, found) =
             pass1 footnotes_enabled document doc_size beg [] (refs md) (footnotes_found md)
      in (text, md\<lparr>refs := references, footnotes_found := found\<rparr>))"

section \<open>The link-reference definitions of a document\<close>







section \<open>Test renderers\<close>

text \<open>
  A \<open>codespan\<close> callback that accepts every span, writes nothing and records the text
  it was given in the opaque state, and a parser built on it.
\<close>

definition log_codespan ::
  "string \<Rightarrow> string option \<Rightarrow> string option list \<Rightarrow> (bool \<times> string) \<times> string option list" where
  "log_codespan ob text lg = ((True, ob), lg @ [text])"

definition codespan_logger :: "string option list sd_markdown" where
  "codespan_logger =
     sd_markdown_new no_extensions 16 (no_callbacks\<lparr>cb_codespan := Some log_codespan\<rparr>) []"

text \<open>
  A parser with no callback and no extension, and a document that defines the
  reference \<open>a\<close> twice: \<open>[a]: x\<close> on the first line, \<open>[a]: y\<close> on the second.
\<close>

definition plain_parser :: "unit sd_markdown" where
  "plain_parser = sd_markdown_new no_extensions 16 no_callbacks ()"


text \<open>
  Two output buffers of unit 64: one that holds \<open>x\<close>, and one that holds 16777215 bytes
  in the largest allocation \<open>bufgrow\<close> grants, so that one more byte fits.
\<close>

definition small_buffer :: buf where
  "small_buffer = \<lparr>buf_data = ''x'', buf_asize = 64, buf_unit = 64\<rparr>"

definition full_buffer :: buf where
  "full_buffer = \<lparr>buf_data = replicate 16777215 (CHR ''x''), buf_asize = 16777216, buf_unit = 64\<rparr>"




section \<open>Notions used in the statements\<close>

text \<open>Removing every leading and every trailing space.\<close>

definition trim_spaces :: "string \<Rightarrow> string" where
  "trim_spaces s = rev (dropWhile (\<lambda>c. c = SP) (rev (dropWhile (\<lambda>c. c = SP) s)))"

text \<open>
  The invariant of the delimiter search of \<open>char_codespan\<close>: \<open>i\<close> is the length of the
  run of backticks that ends at \<open>en\<close>, the run is maximal inside the span's content, and
  no \<open>nb\<close> consecutive backticks of the content end before \<open>en\<close>.
\<close>

definition delim_inv :: "string \<Rightarrow> nat \<Rightarrow> nat \<Rightarrow> nat \<Rightarrow> nat \<Rightarrow> nat \<Rightarrow> bool" where
  "delim_inv m data sz nb en i \<longleftrightarrow>
     nb \<le> en \<and> en \<le> sz \<and> i \<le> en - nb \<and> i \<le> nb
     \<and> (\<forall>k. en - i \<le> k \<and> k < en \<longrightarrow> rd m (data + k) = BQ)
     \<and> (i < en - nb \<longrightarrow> rd m (data + (en - i - 1)) \<noteq> BQ)
     \<and> (\<forall>e. 2 * nb \<le> e \<and> e < en \<longrightarrow> (\<exists>k. e - nb \<le> k \<and> k < e \<and> rd m (data + k) \<noteq> BQ))"

text \<open>The replacement of one byte, as the comment in \<open>houdini_html_e.c\<close> lists them.\<close>

definition html_escape_byte :: "bool \<Rightarrow> char \<Rightarrow> string" where
  "html_escape_byte secure c =
     (if c = CHR ''&'' then ''&amp;''
      else if c = CHR ''<'' then ''&lt;''
      else if c = CHR ''>'' then ''&gt;''
      else if c = CHR 0x22 then ''&quot;''
      else if c = CHR 0x27 then ''&#39;''
      else if c = CHR ''/'' then (if secure then ''&#47;'' else ''/'')
      else [c])"

definition esc_index :: "nat \<Rightarrow> nat" where
  "esc_index n = (if n = 34 then 1 else if n = 38 then 2 else if n = 39 then 3
     else if n = 47 then 4 else if n = 60 then 5 else if n = 62 then 6 else 0)"

section \<open>Views\<close>

lemma length_view [simp]: "length (view m p n) = n"
  by (simp add: view_def)

lemma nth_view [simp]: "k < n \<Longrightarrow> view m p n ! k = rd m (p + k)"
  by (simp add: view_def)

lemma view_0 [simp]: "view m p 0 = []"
  by (simp add: view_def)

lemma view_append: "view m p (a + b) = view m p a @ view m (p + a) b"
proof -
  have "[p ..< p + (a + b)] = [p ..< p + a] @ [p + a ..< p + a + b]"
    by (metis add.assoc le_add1 upt_add_eq_append)
  then show ?thesis by (simp add: view_def)
qed

lemma view_split: "a \<le> n \<Longrightarrow> view m p n = view m p a @ view m (p + a) (n - a)"
  using view_append[of m p a "n - a"] by simp

lemma view_eq_replicate: "view m p n = replicate n c \<longleftrightarrow> (\<forall>k<n. rd m (p + k) = c)"
  by (auto simp: list_eq_iff_nth_eq)

lemma set_view: "set (view m p n) = {rd m (p + k) | k. k < n}"
proof -
  have "set [p ..< p + n] = {p + k | k. k < n}"
    by (auto simp: le_iff_add)
  then show ?thesis unfolding view_def set_map by auto
qed
lemma view_Suc: "view m p (Suc n) = rd m p # view m (Suc p) n"
  by (simp add: view_def upt_rec)

lemma dropWhile_view:
  assumes "lo \<le> b" "b \<le> hi" "\<forall>k. lo \<le> k \<and> k < b \<longrightarrow> P (rd m k)" "b < hi \<longrightarrow> \<not> P (rd m b)"
  shows "dropWhile P (view m lo (hi - lo)) = view m b (hi - b)"
proof -
  have sp: "view m lo (hi - lo) = view m lo (b - lo) @ view m b (hi - b)"
    using view_split[of "b - lo" "hi - lo" m lo] assms(1,2) by simp
  have all: "\<forall>x\<in>set (view m lo (b - lo)). P x"
    using assms(1,3) by (auto simp: set_view)
  have rest: "dropWhile P (view m b (hi - b)) = view m b (hi - b)"
  proof (cases "b < hi")
    case True
    then have "view m b (hi - b) \<noteq> []" by (metis length_view list.size(3) zero_less_diff less_numeral_extra(3))
    moreover have "hd (view m b (hi - b)) = rd m b"
      using True by (simp add: hd_conv_nth[OF calculation])
    ultimately show ?thesis using assms(4) True by (cases "view m b (hi - b)") auto
  next
    case False
    then show ?thesis by simp
  qed
  show ?thesis using sp all rest by (simp add: dropWhile_append2)
qed

lemma dropWhile_rev_view:
  assumes "b \<le> e" "e \<le> hi" "\<forall>k. e \<le> k \<and> k < hi \<longrightarrow> P (rd m k)" "b < e \<longrightarrow> \<not> P (rd m (e - 1))"
  shows "rev (dropWhile P (rev (view m b (hi - b)))) = view m b (e - b)"
proof -
  have sp: "view m b (hi - b) = view m b (e - b) @ view m e (hi - e)"
    using view_split[of "e - b" "hi - b" m b] assms(1,2) by simp
  have all: "\<forall>x\<in>set (rev (view m e (hi - e))). P x"
    using assms(2,3) by (auto simp: set_view)
  have rest: "dropWhile P (rev (view m b (e - b))) = rev (view m b (e - b))"
  proof (cases "b < e")
    case True
    then have ne: "view m b (e - b) \<noteq> []" by (metis length_view list.size(3) zero_less_diff less_numeral_extra(3))
    have "last (view m b (e - b)) = rd m (e - 1)"
      using True by (simp add: last_conv_nth[OF ne])
    then have "hd (rev (view m b (e - b))) = rd m (e - 1)" using ne by (simp add: hd_rev)
    then show ?thesis using assms(4) True ne by (cases "rev (view m b (e - b))") auto
  next
    case False
    then show ?thesis by simp
  qed
  have "dropWhile P (rev (view m e (hi - e)) @ rev (view m b (e - b)))
          = dropWhile P (rev (view m b (e - b)))"
    by (rule dropWhile_append2) (use all in blast)
  then show ?thesis using sp rest by simp
qed

section \<open>The code span trigger\<close>

lemma delim_inv_step:
  assumes "delim_inv m data sz nb en i" "en < sz" "i < nb"
  shows "delim_inv m data sz nb (Suc en) (if rd m (data + en) = BQ then Suc i else 0)"
proof -
  have new: "\<forall>e. 2 * nb \<le> e \<and> e < Suc en \<longrightarrow> (\<exists>k. e - nb \<le> k \<and> k < e \<and> rd m (data + k) \<noteq> BQ)"
  proof (intro allI impI)
    fix e assume e: "2 * nb \<le> e \<and> e < Suc en"
    show "\<exists>k. e - nb \<le> k \<and> k < e \<and> rd m (data + k) \<noteq> BQ"
    proof (cases "e < en")
      case True
      then show ?thesis using assms(1) e unfolding delim_inv_def by blast
    next
      case False
      then have "e = en" using e by simp
      then have "i < en - nb" using e assms(3) by linarith
      then have "rd m (data + (en - i - 1)) \<noteq> BQ" using assms(1) unfolding delim_inv_def by blast
      moreover have "en - nb \<le> en - i - 1" "en - i - 1 < en" using assms(3) \<open>i < en - nb\<close> by linarith+
      ultimately show ?thesis using \<open>e = en\<close> by blast
    qed
  qed
  show ?thesis
  proof (cases "rd m (data + en) = BQ")
    case True
    have a: "\<forall>k. Suc en - Suc i \<le> k \<and> k < Suc en \<longrightarrow> rd m (data + k) = BQ"
      using assms(1) True unfolding delim_inv_def
      by (metis diff_Suc_Suc less_Suc_eq)
    have b: "Suc i < Suc en - nb \<longrightarrow> rd m (data + (Suc en - Suc i - 1)) \<noteq> BQ"
      using assms(1) unfolding delim_inv_def by auto
    show ?thesis using assms a b new True unfolding delim_inv_def by auto
  next
    case False
    then show ?thesis using assms new unfolding delim_inv_def by auto
  qed
qed

lemma codespan_delim_inv:
  "delim_inv m data sz nb en i \<Longrightarrow> codespan_delim m data sz nb en i = (en', i') \<Longrightarrow>
   delim_inv m data sz nb en' i' \<and> (sz \<le> en' \<or> nb \<le> i')"
proof (induction m data sz nb en i rule: codespan_delim.induct)
  case (1 m data sz nb en i)
  show ?case
  proof (cases "en < sz \<and> i < nb")
    case True
    then have "codespan_delim m data sz nb (Suc en) (if rd m (data + en) = BQ then Suc i else 0) = (en', i')"
      using 1(3) by (subst (asm) codespan_delim.simps) simp
    moreover have "delim_inv m data sz nb (Suc en) (if rd m (data + en) = BQ then Suc i else 0)"
      using delim_inv_step[OF 1(2)] True by simp
    ultimately show ?thesis using 1(1) True by blast
  next
    case False
    then have "(en', i') = (en, i)" using 1(3) by (subst (asm) codespan_delim.simps) auto
    then show ?thesis using 1(2) False by auto
  qed
qed

lemma view_neq_replicate:
  "k < n \<Longrightarrow> rd m (p + k) \<noteq> c \<Longrightarrow> view m p n \<noteq> replicate n c"
  by (auto simp: view_eq_replicate)

text \<open>
  C5, as amended. For a span that begins with a run of \<open>nb\<close> backticks, \<open>char_codespan\<close>
  closes the span at the first \<open>nb\<close> consecutive backticks that follow the opening run
  (whether or not more backticks come after them), removes all leading and all trailing
  spaces of the content in between and hands the result to the \<open>codespan\<close> callback (a
  null text when nothing is left); its result is the length up to and including the
  closing backticks, or 0 when the callback declines. When the content has no \<open>nb\<close>
  consecutive backticks the trigger returns 0 and leaves output and parser unchanged.
\<close>

theorem char_codespan_first_run_trims_all:
  assumes cbk: "cb_codespan (cb rndr) = Some f"
    and trig: "0 < sz" "rd m data = BQ"
    and nb: "nb = skip_while (\<lambda>k. rd m (data + k) = BQ) sz 0"
  shows "(\<exists>en. 2 * nb \<le> en \<and> en \<le> sz
            \<and> view m (data + (en - nb)) nb = replicate nb BQ
            \<and> (\<forall>e. 2 * nb \<le> e \<and> e < en \<longrightarrow> view m (data + (e - nb)) nb \<noteq> replicate nb BQ)
            \<and> char_codespan ob rndr m data offset sz =
                (let t = trim_spaces (view m (data + nb) (en - 2 * nb));
                     ((r, ob'), rndr') = invoke (f ob (if t = [] then None else Some t)) rndr
                 in (if r then en else 0, ob', rndr')))
       \<or> ((\<forall>e. 2 * nb \<le> e \<and> e \<le> sz \<longrightarrow> view m (data + (e - nb)) nb \<noteq> replicate nb BQ)
            \<and> char_codespan ob rndr m data offset sz = (0, ob, rndr))"
proof -
  have nb_pos: "0 < nb"
  proof -
    have "skip_while (\<lambda>k. rd m (data + k) = BQ) sz 0 = skip_while (\<lambda>k. rd m (data + k) = BQ) sz (Suc 0)"
      using trig by (subst skip_while.simps) simp
    then show ?thesis using nb skip_while_ge[of "Suc 0" "\<lambda>k. rd m (data + k) = BQ" sz] by simp
  qed
  have nb_le: "nb \<le> sz" using nb skip_while_le[of 0 sz] by simp
  obtain en i where del: "codespan_delim m data sz nb nb 0 = (en, i)"
    by (cases "codespan_delim m data sz nb nb 0") auto
  have "delim_inv m data sz nb nb 0"
    using nb_le nb_pos unfolding delim_inv_def by auto
  from codespan_delim_inv[OF this del]
  have inv: "delim_inv m data sz nb en i" and ex: "sz \<le> en \<or> nb \<le> i" by auto
  have first: "\<forall>e. 2 * nb \<le> e \<and> e < en \<longrightarrow> view m (data + (e - nb)) nb \<noteq> replicate nb BQ"
  proof (intro allI impI)
    fix e assume e: "2 * nb \<le> e \<and> e < en"
    then obtain k where k: "e - nb \<le> k" "k < e" "rd m (data + k) \<noteq> BQ"
      using inv unfolding delim_inv_def by blast
    have "k - (e - nb) < nb" using k e by linarith
    moreover have "rd m (data + (e - nb) + (k - (e - nb))) \<noteq> BQ" using k by simp
    ultimately show "view m (data + (e - nb)) nb \<noteq> replicate nb BQ"
      by (rule view_neq_replicate)
  qed
  show ?thesis
  proof (cases "i < nb \<and> sz \<le> en")
    case True
    then have ret: "char_codespan ob rndr m data offset sz = (0, ob, rndr)"
      using del by (simp add: char_codespan_def Let_def nb[symmetric])
    have en_sz: "en = sz" using True inv unfolding delim_inv_def by simp
    have "\<forall>e. 2 * nb \<le> e \<and> e \<le> sz \<longrightarrow> view m (data + (e - nb)) nb \<noteq> replicate nb BQ"
    proof (intro allI impI)
      fix e assume e: "2 * nb \<le> e \<and> e \<le> sz"
      show "view m (data + (e - nb)) nb \<noteq> replicate nb BQ"
      proof (cases "e < en")
        case True
        then show ?thesis using first e by blast
      next
        case False
        then have ee: "e = en" using e en_sz by simp
        have "i < en - nb" using True e ee by linarith
        then have nbq: "rd m (data + (en - i - 1)) \<noteq> BQ" using inv unfolding delim_inv_def by blast
        have "(en - i - 1) - (en - nb) < nb" using True \<open>i < en - nb\<close> by linarith
        moreover have "rd m (data + (en - nb) + ((en - i - 1) - (en - nb))) \<noteq> BQ"
          using nbq True \<open>i < en - nb\<close> by simp
        ultimately show ?thesis unfolding ee by (rule view_neq_replicate)
      qed
    qed
    then show ?thesis using ret by blast
  next
    case False
    then have i_nb: "i = nb" using ex inv unfolding delim_inv_def by auto
    have en_bounds: "2 * nb \<le> en" "en \<le> sz" using inv i_nb unfolding delim_inv_def by auto
    have run: "\<forall>k. en - nb \<le> k \<and> k < en \<longrightarrow> rd m (data + k) = BQ"
      using inv i_nb unfolding delim_inv_def by simp
    have closing: "view m (data + (en - nb)) nb = replicate nb BQ"
      unfolding view_eq_replicate
    proof (intro allI impI)
      fix k assume "k < nb"
      then have "en - nb \<le> en - nb + k \<and> en - nb + k < en" using en_bounds by linarith
      then have "rd m (data + (en - nb + k)) = BQ" using run by blast
      then show "rd m (data + (en - nb) + k) = BQ" by (simp add: add.assoc)
    qed
    define hi where "hi = en - nb"
    define fb where "fb = skip_while (\<lambda>k. rd m (data + k) = SP) en nb"
    define fe where "fe = skip_back (\<lambda>k. rd m (data + k - 1) = SP) nb hi"
    have hi: "nb \<le> hi" "hi < en" using en_bounds nb_pos unfolding hi_def by auto
    have hi_bq: "rd m (data + hi) = BQ" using run[rule_format, of hi] hi unfolding hi_def by blast
    have fb_ge: "nb \<le> fb" unfolding fb_def by (rule skip_while_ge)
    have fb_le: "fb \<le> hi"
    proof (rule ccontr)
      assume "\<not> fb \<le> hi"
      then have "rd m (data + hi) = SP"
        using skip_while_all[of nb hi "\<lambda>k. rd m (data + k) = SP" en] hi unfolding fb_def by simp
      then show False using hi_bq by simp
    qed
    have fb_all: "\<forall>k. data + nb \<le> k \<and> k < data + fb \<longrightarrow> rd m k = SP"
    proof (intro allI impI)
      fix k assume "data + nb \<le> k \<and> k < data + fb"
      then have "nb \<le> k - data" "k - data < fb" "k = data + (k - data)" by auto
      then show "rd m k = SP"
        using skip_while_all[of nb "k - data" "\<lambda>k. rd m (data + k) = SP" en] unfolding fb_def by metis
    qed
    have fb_stop: "fb < hi \<longrightarrow> rd m (data + fb) \<noteq> SP"
      using skip_while_stop[of "\<lambda>k. rd m (data + k) = SP" en nb] hi unfolding fb_def by auto
    have fe_le: "fe \<le> hi" unfolding fe_def by (rule skip_back_le)
    have fe_ge: "nb \<le> fe" unfolding fe_def using hi by (intro skip_back_ge)
    have fe_all: "\<forall>k. fe < k \<and> k \<le> hi \<longrightarrow> rd m (data + k - 1) = SP"
      using skip_back_all[of "\<lambda>k. rd m (data + k - 1) = SP" nb hi] unfolding fe_def by blast
    have fe_stop: "nb < fe \<longrightarrow> rd m (data + fe - 1) \<noteq> SP"
      using skip_back_stop[of nb "\<lambda>k. rd m (data + k - 1) = SP" hi] unfolding fe_def by blast
    have "en - 2 * nb = data + hi - (data + nb)" unfolding hi_def by linarith
    then have inner: "view m (data + nb) (en - 2 * nb) = view m (data + nb) (data + hi - (data + nb))"
      by (rule arg_cong)
    have d1: "dropWhile (\<lambda>c. c = SP) (view m (data + nb) (data + hi - (data + nb)))
              = view m (data + fb) (data + hi - (data + fb))"
      by (rule dropWhile_view) (use fb_ge fb_le fb_all fb_stop in auto)
    have work: "(if fb < fe then Some (view m (data + fb) (fe - fb)) else None)
          = (let t = trim_spaces (view m (data + nb) (en - 2 * nb)) in if t = [] then None else Some t)"
    proof (cases "fb < hi")
      case True
      then have nsp: "rd m (data + fb) \<noteq> SP" using fb_stop by simp
      have fb_fe: "fb < fe"
      proof (rule ccontr)
        assume "\<not> fb < fe"
        then have "fe < Suc fb \<and> Suc fb \<le> hi" using True by simp
        then have "rd m (data + Suc fb - 1) = SP" using fe_all by blast
        then show False using nsp by simp
      qed
      have d2: "rev (dropWhile (\<lambda>c. c = SP) (rev (view m (data + fb) (data + hi - (data + fb)))))
                = view m (data + fb) (data + fe - (data + fb))"
      proof (rule dropWhile_rev_view)
        show "data + fb \<le> data + fe" using fb_fe by simp
        show "data + fe \<le> data + hi" using fe_le by simp
        show "\<forall>k. data + fe \<le> k \<and> k < data + hi \<longrightarrow> rd m k = SP"
        proof (intro allI impI)
          fix k assume k: "data + fe \<le> k \<and> k < data + hi"
          then have "fe < Suc k - data \<and> Suc k - data \<le> hi" by auto
          then have "rd m (data + (Suc k - data) - 1) = SP" using fe_all by blast
          moreover have "data + (Suc k - data) - 1 = k" using k by auto
          ultimately show "rd m k = SP" by simp
        qed
        show "data + fb < data + fe \<longrightarrow> rd m (data + fe - 1) \<noteq> SP"
          using fe_stop fb_fe fb_ge by auto
      qed
      have "trim_spaces (view m (data + nb) (en - 2 * nb)) = view m (data + fb) (fe - fb)"
        unfolding trim_spaces_def inner d1 d2 by simp
      moreover have "view m (data + fb) (fe - fb) \<noteq> []"
        using fb_fe by (metis length_view list.size(3) zero_less_diff less_numeral_extra(3))
      ultimately show ?thesis using fb_fe by (simp add: Let_def)
    next
      case False
      then have "fb = hi" using fb_le by simp
      then have "trim_spaces (view m (data + nb) (en - 2 * nb)) = []"
        unfolding trim_spaces_def inner d1 by simp
      moreover have "\<not> fb < fe" using \<open>fb = hi\<close> fe_le by simp
      ultimately show ?thesis by (simp add: Let_def)
    qed
    have "char_codespan ob rndr m data offset sz =
            (let ((r, ob'), rndr') = invoke (f ob (if fb < fe then Some (view m (data + fb) (fe - fb)) else None)) rndr
             in (if r then en else 0, ob', rndr'))"
      using del False cbk unfolding char_codespan_def fb_def fe_def hi_def
      by (auto simp add: Let_def nb[symmetric])
    then have "char_codespan ob rndr m data offset sz =
                (let t = trim_spaces (view m (data + nb) (en - 2 * nb));
                     ((r, ob'), rndr') = invoke (f ob (if t = [] then None else Some t)) rndr
                 in (if r then en else 0, ob', rndr'))"
      unfolding work by (simp add: Let_def)
    then show ?thesis using en_bounds closing first by blast
  qed
qed

text \<open>
  Witness for C5 as amended: the span \<open>`a``b`\<close> under the recording renderer.
\<close>

theorem char_codespan_first_run_trims_all_witness:
  "cb_codespan (cb codespan_logger) = Some log_codespan
   \<and> (0::nat) < 6
   \<and> rd ''`a``b`'' 0 = BQ
   \<and> (1::nat) = skip_while (\<lambda>k. rd ''`a``b`'' (0 + k) = BQ) 6 0
   \<and> ((\<exists>en. 2 * 1 \<le> en \<and> en \<le> 6
            \<and> view ''`a``b`'' (0 + (en - 1)) 1 = replicate 1 BQ
            \<and> (\<forall>e. 2 * 1 \<le> e \<and> e < en \<longrightarrow> view ''`a``b`'' (0 + (e - 1)) 1 \<noteq> replicate 1 BQ)
            \<and> char_codespan [] codespan_logger ''`a``b`'' 0 0 6 =
                (let t = trim_spaces (view ''`a``b`'' (0 + 1) (en - 2 * 1));
                     ((r, ob'), rndr') =
                        invoke (log_codespan [] (if t = [] then None else Some t)) codespan_logger
                 in (if r then en else 0, ob', rndr')))
       \<or> ((\<forall>e. 2 * 1 \<le> e \<and> e \<le> 6 \<longrightarrow> view ''`a``b`'' (0 + (e - 1)) 1 \<noteq> replicate 1 BQ)
            \<and> char_codespan [] codespan_logger ''`a``b`'' 0 0 6 = (0, [], codespan_logger)))"
proof -
  have h1: "cb_codespan (cb codespan_logger) = Some log_codespan"
    by (simp add: codespan_logger_def sd_markdown_new_def no_callbacks_def Let_def)
  have h2: "(0::nat) < 6" by simp
  have h3: "rd ''`a``b`'' 0 = BQ" by (simp add: rd_def)
  have h4: "(1::nat) = skip_while (\<lambda>k. rd ''`a``b`'' (0 + k) = BQ) 6 0"
    by (simp add: skip_while.simps rd_def)
  note c = char_codespan_first_run_trims_all[OF h1 h2 h3 h4, of "[]" 0]
  show ?thesis by (intro conjI) (rule h1, rule h2, rule h3, rule h4, rule c)
qed

text \<open>
  C5 as the spec states it fails twice. In \<open>`a``b`\<close> the opening run has one backtick
  and the next run of exactly one backtick is the last byte, yet the span is closed by
  the first backtick of the run of two: 3 bytes are consumed and the callback gets
  \<open>a\<close>. In \<open>`  a  `\<close> both spaces on each side are removed, not one: the callback gets
  \<open>a\<close>.
\<close>

theorem char_codespan_longer_run_and_two_spaces:
  "char_codespan [] codespan_logger ''`a``b`'' 0 0 6
     = (3, [], codespan_logger\<lparr>opaque := [Some ''a''], ncalls := 1\<rparr>)
   \<and> char_codespan [] codespan_logger ''`  a  `'' 0 0 7
     = (7, [], codespan_logger\<lparr>opaque := [Some ''a''], ncalls := 1\<rparr>)"
  by (simp add: char_codespan_def codespan_logger_def sd_markdown_new_def no_callbacks_def
      no_extensions_def rd_def skip_while.simps skip_back.simps codespan_delim.simps
      invoke_def log_codespan_def view_def upt_rec Let_def)

section \<open>The entity trigger\<close>

text \<open>
  C6: the comment above \<open>char_entity\<close> and the spec require at least one alphanumeric
  byte between the optional \<open>#\<close> and the \<open>;\<close>. The loop that skips the alphanumeric
  bytes may skip none: on \<open>&;\<close> the trigger consumes 2 bytes and, with no \<open>entity\<close>
  callback, appends them raw.
\<close>

theorem char_entity_accepts_empty_name:
  "char_entity [] (sd_markdown_new no_extensions 16 no_callbacks ()) ''&;'' 0 0 2
     = (2, ''&;'', sd_markdown_new no_extensions 16 no_callbacks ())"
  by (simp add: char_entity_def sd_markdown_new_def no_callbacks_def rd_def skip_while.simps
      isalnum_def bufput_def view_def upt_rec Let_def)

text \<open>The same run read off its first component: the trigger reports 2 bytes consumed.\<close>

theorem char_entity_accepts_empty_name_witness:
  "fst (char_entity [] (sd_markdown_new no_extensions 16 no_callbacks ()) ''&;'' 0 0 2) = 2"
  using char_entity_accepts_empty_name by simp

section \<open>HTML escaping\<close>

lemma HTML_ESCAPE_TABLE_eq: "HTML_ESCAPE_TABLE = map esc_index [0..<256]"
  unfolding HTML_ESCAPE_TABLE_def by code_simp

lemma HTML_ESCAPE_TABLE_nth: "HTML_ESCAPE_TABLE ! of_char c = esc_index (of_char c)"
  using String.nat_of_char_less_256[of c] by (simp add: HTML_ESCAPE_TABLE_eq del: upt_Suc)

lemma of_char_eq_num:
  "(of_char c = (34::nat)) = (c = CHR 0x22)" "(of_char c = (38::nat)) = (c = CHR ''&'')"
  "(of_char c = (39::nat)) = (c = CHR 0x27)" "(of_char c = (47::nat)) = (c = CHR ''/'')"
  "(of_char c = (60::nat)) = (c = CHR ''<'')" "(of_char c = (62::nat)) = (c = CHR ''>'')"
proof -
  have e: "\<And>d n. of_char d = (n::nat) \<Longrightarrow> (of_char c = n) = (c = d)"
    by (metis of_char_eq_iff)
  show "(of_char c = (34::nat)) = (c = CHR 0x22)" by (rule e) simp
  show "(of_char c = (38::nat)) = (c = CHR ''&'')" by (rule e) simp
  show "(of_char c = (39::nat)) = (c = CHR 0x27)" by (rule e) simp
  show "(of_char c = (47::nat)) = (c = CHR ''/'')" by (rule e) simp
  show "(of_char c = (60::nat)) = (c = CHR ''<'')" by (rule e) simp
  show "(of_char c = (62::nat)) = (c = CHR ''>'')" by (rule e) simp
qed

lemma escape_plain:
  "HTML_ESCAPE_TABLE ! of_char c = 0 \<Longrightarrow> html_escape_byte secure c = [c]"
  by (auto simp: HTML_ESCAPE_TABLE_nth esc_index_def html_escape_byte_def of_char_eq_num split: if_splits)

lemma concat_escape_plain:
  "\<forall>c\<in>set xs. HTML_ESCAPE_TABLE ! of_char c = 0 \<Longrightarrow> concat (map (html_escape_byte secure) xs) = xs"
  by (induction xs) (auto simp: escape_plain)

text \<open>An append that stays below the cap is not refused.\<close>

lemma bufgrow_below_cap:
  assumes "buf_unit b \<noteq> 0" and "n \<le> BUFFER_MAX_ALLOC_SIZE"
  shows "\<exists>a. bufgrow b n = Some (BUF_OK, b\<lparr>buf_asize := a\<rparr>)"
proof (cases "n \<le> buf_asize b")
  case True
  then have "bufgrow b n = Some (BUF_OK, b\<lparr>buf_asize := buf_asize b\<rparr>)"
    using assms by (simp add: bufgrow_def)
  then show ?thesis by blast
next
  case False
  then have "bufgrow b n = Some (BUF_OK,
      b\<lparr>buf_asize := bufgrow_neoasz (buf_unit b) n (buf_asize b + buf_unit b)\<rparr>)"
    using assms by (simp add: bufgrow_def)
  then show ?thesis by blast
qed

lemma bufput_cap_below_cap:
  assumes "buf_unit b \<noteq> 0" and "length (buf_data b) + length bytes \<le> BUFFER_MAX_ALLOC_SIZE"
  shows "\<exists>b'. bufput_cap b bytes = Some b' \<and> buf_data b' = buf_data b @ bytes
              \<and> buf_unit b' = buf_unit b"
proof -
  from bufgrow_below_cap[OF assms] obtain a where
    "bufgrow b (length (buf_data b) + length bytes) = Some (BUF_OK, b\<lparr>buf_asize := a\<rparr>)"
    by blast
  then show ?thesis using assms(1) by (simp add: bufput_cap_def)
qed

lemma bufputc_cap_below_cap:
  assumes "buf_unit b \<noteq> 0" and "length (buf_data b) + 1 \<le> BUFFER_MAX_ALLOC_SIZE"
  shows "\<exists>b'. bufputc_cap b c = Some b' \<and> buf_data b' = buf_data b @ [c]
              \<and> buf_unit b' = buf_unit b"
proof -
  from bufgrow_below_cap[OF assms] obtain a where
    "bufgrow b (length (buf_data b) + 1) = Some (BUF_OK, b\<lparr>buf_asize := a\<rparr>)"
    by blast
  then show ?thesis using assms(1) by (simp add: bufputc_cap_def)
qed

lemma escape_special:
  assumes "HTML_ESCAPE_TABLE ! of_char c \<noteq> 0" and "buf_unit ob \<noteq> 0"
    and "length (buf_data ob) + length (html_escape_byte secure c) \<le> BUFFER_MAX_ALLOC_SIZE"
  shows "\<exists>ob'. (if c = CHR ''/'' \<and> \<not> secure then bufputc_cap ob (CHR ''/'')
               else bufputs_cap ob (HTML_ESCAPES ! (HTML_ESCAPE_TABLE ! of_char c))) = Some ob'
             \<and> buf_data ob' = buf_data ob @ html_escape_byte secure c
             \<and> buf_unit ob' = buf_unit ob"
proof (cases "c = CHR ''/'' \<and> \<not> secure")
  case True
  then have e: "html_escape_byte secure c = [c]" by (simp add: html_escape_byte_def)
  have "length (buf_data ob) + 1 \<le> BUFFER_MAX_ALLOC_SIZE" using assms(3) unfolding e by simp
  from bufputc_cap_below_cap[OF assms(2) this, of c]
  show ?thesis unfolding if_P[OF True] e using True by simp
next
  case False
  have s: "takeWhile (\<lambda>c. c \<noteq> CHR 0x00) (HTML_ESCAPES ! (HTML_ESCAPE_TABLE ! of_char c))
           = html_escape_byte secure c"
    using assms(1) False
    by (auto simp: HTML_ESCAPE_TABLE_nth esc_index_def html_escape_byte_def of_char_eq_num
        HTML_ESCAPES_def split: if_splits)
  from bufput_cap_below_cap[OF assms(2,3)]
  show ?thesis unfolding if_not_P[OF False] bufputs_cap_def s .
qed

lemma houdini_escape_html0_loop_done:
  "\<not> i < sz \<Longrightarrow> houdini_escape_html0_loop ob m src sz secure i = Some ob"
  by (subst houdini_escape_html0_loop.simps) simp

lemma houdini_escape_html0_loop_step:
  "i < sz \<Longrightarrow> houdini_escape_html0_loop ob m src sz secure i =
        (let org = i;
             i = skip_while (\<lambda>k. HTML_ESCAPE_TABLE ! of_char (rd m (src + k)) = 0) sz i
         in case (if i > org then bufput_cap ob (view m (src + org) (i - org)) else Some ob) of
              None \<Rightarrow> None
            | Some ob \<Rightarrow>
                if i \<ge> sz then Some ob
                else
                  (let esc = HTML_ESCAPE_TABLE ! of_char (rd m (src + i))
                   in case (if rd m (src + i) = CHR ''/'' \<and> \<not> secure
                            then bufputc_cap ob (CHR ''/'')
                            else bufputs_cap ob (HTML_ESCAPES ! esc)) of
                        None \<Rightarrow> None
                      | Some ob \<Rightarrow> houdini_escape_html0_loop ob m src sz secure (i + 1)))"
  by (subst houdini_escape_html0_loop.simps) (simp only: if_True)

lemma houdini_escape_html0_loop_eq:
  assumes "i \<le> sz" and "buf_unit ob \<noteq> 0"
    and "length (buf_data ob) + length (concat (map (html_escape_byte secure) (view m (src + i) (sz - i))))
         \<le> BUFFER_MAX_ALLOC_SIZE"
  shows "\<exists>ob'. houdini_escape_html0_loop ob m src sz secure i = Some ob'
     \<and> buf_data ob' = buf_data ob @ concat (map (html_escape_byte secure) (view m (src + i) (sz - i)))
     \<and> buf_unit ob' = buf_unit ob"
  using assms
proof (induction ob m src sz secure i rule: houdini_escape_html0_loop.induct)
  case (1 ob m src sz secure i)
  define j where "j = skip_while (\<lambda>k. HTML_ESCAPE_TABLE ! of_char (rd m (src + k)) = 0) sz i"
  define r1 where "r1 = (if j > i then bufput_cap ob (view m (src + i) (j - i)) else Some ob)"
  have ij: "i \<le> j" unfolding j_def by (rule skip_while_ge)
  have jsz: "j \<le> sz" unfolding j_def using 1(2) by (rule skip_while_le)
  have plain: "\<forall>c\<in>set (view m (src + i) (j - i)). HTML_ESCAPE_TABLE ! of_char c = 0"
  proof
    fix c assume "c \<in> set (view m (src + i) (j - i))"
    then obtain k where k: "k < j - i" "c = rd m (src + i + k)" by (auto simp: set_view)
    have "HTML_ESCAPE_TABLE ! of_char (rd m (src + (i + k))) = 0"
      using skip_while_all[of i "i + k" "\<lambda>k. HTML_ESCAPE_TABLE ! of_char (rd m (src + k)) = 0" sz] k(1)
      unfolding j_def by simp
    then show "HTML_ESCAPE_TABLE ! of_char c = 0" using k(2) by (simp add: add.assoc)
  qed
  have img1: "concat (map (html_escape_byte secure) (view m (src + i) (j - i))) = view m (src + i) (j - i)"
    by (rule concat_escape_plain[OF plain])
  have split: "view m (src + i) (sz - i) = view m (src + i) (j - i) @ view m (src + j) (sz - j)"
    using view_split[of "j - i" "sz - i" m "src + i"] ij jsz by simp
  have img: "concat (map (html_escape_byte secure) (view m (src + i) (sz - i)))
             = view m (src + i) (j - i) @ concat (map (html_escape_byte secure) (view m (src + j) (sz - j)))"
    unfolding split using img1 by simp
  have cap1: "length (buf_data ob) + length (view m (src + i) (j - i)) \<le> BUFFER_MAX_ALLOC_SIZE"
    using 1(4) unfolding img by simp
  obtain ob1 where ob1: "r1 = Some ob1" "buf_data ob1 = buf_data ob @ view m (src + i) (j - i)"
      "buf_unit ob1 = buf_unit ob"
  proof (cases "j > i")
    case True
    from bufput_cap_below_cap[OF 1(3) cap1] obtain b' where
      "bufput_cap ob (view m (src + i) (j - i)) = Some b'"
      "buf_data b' = buf_data ob @ view m (src + i) (j - i)" "buf_unit b' = buf_unit ob"
      by blast
    then show ?thesis using that True unfolding r1_def by simp
  next
    case False
    then have "j - i = 0" by simp
    then have "view m (src + i) (j - i) = []" by (simp add: view_def)
    then show ?thesis using that[of ob] False unfolding r1_def by simp
  qed
  show ?case
  proof (cases "i < sz")
    case False
    then have "houdini_escape_html0_loop ob m src sz secure i = Some ob"
      by (rule houdini_escape_html0_loop_done)
    moreover have "view m (src + i) (sz - i) = []" using False by (simp add: view_def)
    ultimately show ?thesis by simp
  next
    case True
    have step: "houdini_escape_html0_loop ob m src sz secure i
                = (if sz \<le> j then Some ob1
                   else case (if rd m (src + j) = CHR ''/'' \<and> \<not> secure
                              then bufputc_cap ob1 (CHR ''/'')
                              else bufputs_cap ob1 (HTML_ESCAPES ! (HTML_ESCAPE_TABLE ! of_char (rd m (src + j))))) of
                          None \<Rightarrow> None
                        | Some ob \<Rightarrow> houdini_escape_html0_loop ob m src sz secure (j + 1))"
      unfolding houdini_escape_html0_loop_step[OF True] Let_def j_def[symmetric] r1_def[symmetric] ob1(1)
      by simp
    show ?thesis
    proof (cases "sz \<le> j")
      case True
      then have "j = sz" using jsz by simp
      then have e: "view m (src + j) (sz - j) = []" by (simp add: view_def)
      have "houdini_escape_html0_loop ob m src sz secure i = Some ob1"
        unfolding step using True by simp
      then show ?thesis using ob1(2,3) unfolding img e by simp
    next
      case False
      then have jlt: "j < sz" by simp
      have stop: "HTML_ESCAPE_TABLE ! of_char (rd m (src + j)) \<noteq> 0"
        using skip_while_stop[of "\<lambda>k. HTML_ESCAPE_TABLE ! of_char (rd m (src + k)) = 0" sz i] jlt
        unfolding j_def by simp
      have rest: "view m (src + j) (sz - j) = rd m (src + j) # view m (src + (j + 1)) (sz - (j + 1))"
        using jlt view_Suc[of m "src + j" "sz - j - 1"] by (simp add: Suc_diff_Suc)
      have u1: "buf_unit ob1 \<noteq> 0" using ob1(3) 1(3) by simp
      have cap2: "length (buf_data ob1) + length (html_escape_byte secure (rd m (src + j)))
                  \<le> BUFFER_MAX_ALLOC_SIZE"
        using 1(4) unfolding img rest ob1(2) by simp
      from escape_special[OF stop u1 cap2] obtain ob2 where
        ob2: "(if rd m (src + j) = CHR ''/'' \<and> \<not> secure then bufputc_cap ob1 (CHR ''/'')
               else bufputs_cap ob1 (HTML_ESCAPES ! (HTML_ESCAPE_TABLE ! of_char (rd m (src + j)))))
              = Some ob2"
          "buf_data ob2 = buf_data ob1 @ html_escape_byte secure (rd m (src + j))"
          "buf_unit ob2 = buf_unit ob1"
        by blast
      have cap3: "length (buf_data ob2)
          + length (concat (map (html_escape_byte secure) (view m (src + (j + 1)) (sz - (j + 1)))))
          \<le> BUFFER_MAX_ALLOC_SIZE"
        using 1(4) unfolding img rest ob1(2) ob2(2) by simp
      have u2: "buf_unit ob2 \<noteq> 0" using ob2(3) u1 by simp
      have "\<exists>ob'. houdini_escape_html0_loop ob2 m src sz secure (j + 1) = Some ob'
         \<and> buf_data ob' = buf_data ob2
              @ concat (map (html_escape_byte secure) (view m (src + (j + 1)) (sz - (j + 1))))
         \<and> buf_unit ob' = buf_unit ob2"
      proof (rule 1(1)[OF True refl])
        show "j = skip_while (\<lambda>k. HTML_ESCAPE_TABLE ! of_char (rd m (src + k)) = 0) sz i"
          by (rule j_def)
        show "(if i < j then bufput_cap ob (view m (src + i) (j - i)) else Some ob) = Some ob1"
          using ob1(1) unfolding r1_def .
        show "\<not> sz \<le> j" by (rule False)
        show "HTML_ESCAPE_TABLE ! of_char (rd m (src + j)) = HTML_ESCAPE_TABLE ! of_char (rd m (src + j))"
          by (rule refl)
        show "(if rd m (src + j) = CHR ''/'' \<and> \<not> secure then bufputc_cap ob1 CHR ''/''
           else bufputs_cap ob1 (HTML_ESCAPES ! (HTML_ESCAPE_TABLE ! of_char (rd m (src + j))))) = Some ob2"
          by (rule ob2(1))
        show "j + 1 \<le> sz" using jlt by simp
        show "buf_unit ob2 \<noteq> 0" by (rule u2)
        show "length (buf_data ob2)
          + length (concat (map (html_escape_byte secure) (view m (src + (j + 1)) (sz - (j + 1)))))
          \<le> BUFFER_MAX_ALLOC_SIZE" by (rule cap3)
      qed
      then obtain ob' where ob': "houdini_escape_html0_loop ob2 m src sz secure (j + 1) = Some ob'"
         "buf_data ob' = buf_data ob2
              @ concat (map (html_escape_byte secure) (view m (src + (j + 1)) (sz - (j + 1))))"
         "buf_unit ob' = buf_unit ob2"
        by blast
      have "houdini_escape_html0_loop ob m src sz secure i = Some ob'"
        unfolding step ob2(1) using False ob'(1) by simp
      moreover have "buf_data ob' = buf_data ob
          @ concat (map (html_escape_byte secure) (view m (src + i) (sz - i)))"
        unfolding ob'(2) ob2(2) ob1(2) img rest by simp
      moreover have "buf_unit ob' = buf_unit ob" using ob'(3) ob2(3) ob1(3) by simp
      ultimately show ?thesis by blast
    qed
  qed
qed

lemma houdini_escape_html0_loop_last:
  assumes "i < sz"
    and "skip_while (\<lambda>k. HTML_ESCAPE_TABLE ! of_char (rd m (src + k)) = 0) sz i = j"
    and "(if j > i then bufput_cap ob (view m (src + i) (j - i)) else Some ob) = Some ob1"
    and "j \<ge> sz"
  shows "houdini_escape_html0_loop ob m src sz secure i = Some ob1"
  unfolding houdini_escape_html0_loop_step[OF assms(1)] Let_def assms(2) assms(3)
  using assms(4) by simp

lemma houdini_escape_html0_loop_next:
  assumes "i < sz"
    and "skip_while (\<lambda>k. HTML_ESCAPE_TABLE ! of_char (rd m (src + k)) = 0) sz i = j"
    and "(if j > i then bufput_cap ob (view m (src + i) (j - i)) else Some ob) = Some ob1"
    and "j < sz"
    and "(if rd m (src + j) = CHR ''/'' \<and> \<not> secure then bufputc_cap ob1 (CHR ''/'')
          else bufputs_cap ob1 (HTML_ESCAPES ! (HTML_ESCAPE_TABLE ! of_char (rd m (src + j)))))
         = Some ob2"
  shows "houdini_escape_html0_loop ob m src sz secure i
         = houdini_escape_html0_loop ob2 m src sz secure (j + 1)"
  unfolding houdini_escape_html0_loop_step[OF assms(1)] Let_def assms(2) assms(3)
  using assms(4) assms(5) by simp

text \<open>
  C9, as amended. When the initial \<open>bufgrow\<close> succeeds and the output with the whole
  image appended stays within \<open>BUFFER_MAX_ALLOC_SIZE\<close> (so that no later growth is
  refused), \<open>houdini_escape_html0\<close> appends to the output exactly the image of the
  source bytes, in order, where \<open>&\<close>, \<open><\<close>, \<open>>\<close>, the double quote and the single quote
  become \<open>&amp;\<close>, \<open>&lt;\<close>, \<open>&gt;\<close>, \<open>&quot;\<close> and \<open>&#39;\<close>, the slash becomes
  \<open>&#47;\<close> when \<open>secure\<close> is set and stays a slash otherwise, and every other byte is
  copied.
\<close>

theorem houdini_escape_html0_bytewise:
  assumes "bufgrow ob (ESCAPE_GROW_FACTOR sz) = Some (BUF_OK, ob1)"
    and "length (buf_data ob) + length (concat (map (html_escape_byte secure) (view m src sz)))
         \<le> BUFFER_MAX_ALLOC_SIZE"
  shows "\<exists>ob'. houdini_escape_html0 ob m src sz secure = Some ob'
           \<and> buf_data ob' = buf_data ob @ concat (map (html_escape_byte secure) (view m src sz))
           \<and> buf_unit ob' = buf_unit ob"
proof -
  have u: "buf_unit ob \<noteq> 0" and d1: "buf_data ob1 = buf_data ob" and u1: "buf_unit ob1 = buf_unit ob"
    using assms(1) by (auto simp: bufgrow_def split: if_splits)
  have "\<exists>ob'. houdini_escape_html0_loop ob1 m src sz secure 0 = Some ob'
     \<and> buf_data ob' = buf_data ob1 @ concat (map (html_escape_byte secure) (view m (src + 0) (sz - 0)))
     \<and> buf_unit ob' = buf_unit ob1"
    by (rule houdini_escape_html0_loop_eq) (use u assms(2) d1 u1 in simp_all)
  then show ?thesis
    unfolding houdini_escape_html0_def assms(1) using d1 u1 by simp
qed

text \<open>Witness for C9: a tag with an attribute, escaped for a path-like text and for body text.\<close>

theorem houdini_escape_html0_bytewise_witness:
  "bufgrow small_buffer (ESCAPE_GROW_FACTOR 14) = Some (BUF_OK, small_buffer)
   \<and> length (buf_data small_buffer)
       + length (concat (map (html_escape_byte False) (view ''<a href=\"/b\">&'' 0 14)))
       \<le> BUFFER_MAX_ALLOC_SIZE
   \<and> (\<exists>ob'. houdini_escape_html0 small_buffer ''<a href=\"/b\">&'' 0 14 False = Some ob'
         \<and> buf_data ob' = ''x&lt;a href=&quot;/b&quot;&gt;&amp;'')"
proof -
  have h1: "bufgrow small_buffer (ESCAPE_GROW_FACTOR 14) = Some (BUF_OK, small_buffer)"
    by (simp add: bufgrow_def small_buffer_def ESCAPE_GROW_FACTOR_def BUFFER_MAX_ALLOC_SIZE_def)
  have img: "concat (map (html_escape_byte False) (view ''<a href=\"/b\">&'' 0 14))
             = ''&lt;a href=&quot;/b&quot;&gt;&amp;''"
    by (simp add: view_def rd_def html_escape_byte_def upt_rec)
  have h2: "length (buf_data small_buffer)
       + length (concat (map (html_escape_byte False) (view ''<a href=\"/b\">&'' 0 14)))
       \<le> BUFFER_MAX_ALLOC_SIZE"
    unfolding img by (simp add: small_buffer_def BUFFER_MAX_ALLOC_SIZE_def)
  from houdini_escape_html0_bytewise[OF h1 h2] obtain ob' where
    "houdini_escape_html0 small_buffer ''<a href=\"/b\">&'' 0 14 False = Some ob'"
    "buf_data ob' = buf_data small_buffer
        @ concat (map (html_escape_byte False) (view ''<a href=\"/b\">&'' 0 14))"
    by blast
  then have "\<exists>ob'. houdini_escape_html0 small_buffer ''<a href=\"/b\">&'' 0 14 False = Some ob'
         \<and> buf_data ob' = ''x&lt;a href=&quot;/b&quot;&gt;&amp;''"
    unfolding img by (simp add: small_buffer_def)
  with h1 h2 show ?thesis by blast
qed

text \<open>
  C9, as stated, fails on a buffer near the cap although the initial \<open>bufgrow\<close>
  succeeds: on \<open>full_buffer\<close> the source \<open>ab&c\<close>, whose image is \<open>ab&amp;c\<close>, has the two
  bytes \<open>ab\<close> and the replacement \<open>&amp;\<close> refused, and only \<open>c\<close> is appended.
\<close>

theorem houdini_escape_html0_refused_growth:
  "bufgrow full_buffer (ESCAPE_GROW_FACTOR 4) = Some (BUF_OK, full_buffer)
   \<and> houdini_escape_html0 full_buffer ''ab&c'' 0 4 True
       = Some (full_buffer\<lparr>buf_data := buf_data full_buffer @ ''c''\<rparr>)
   \<and> concat (map (html_escape_byte True) (view ''ab&c'' 0 4)) = ''ab&amp;c''"
proof -
  have g: "bufgrow full_buffer (ESCAPE_GROW_FACTOR 4) = Some (BUF_OK, full_buffer)"
    by (simp add: bufgrow_def full_buffer_def ESCAPE_GROW_FACTOR_def BUFFER_MAX_ALLOC_SIZE_def)
  have s0: "skip_while (\<lambda>k. HTML_ESCAPE_TABLE ! of_char (rd ''ab&c'' (0 + k)) = 0) 4 0 = 2"
    by code_simp
  have s3: "skip_while (\<lambda>k. HTML_ESCAPE_TABLE ! of_char (rd ''ab&c'' (0 + k)) = 0) 4 (2 + 1) = 4"
    by code_simp
  have v0: "view ''ab&c'' (0 + 0) (2 - 0) = ''ab''" by code_simp
  have v3: "view ''ab&c'' (0 + (2 + 1)) (4 - (2 + 1)) = ''c''" by code_simp
  have r2: "rd ''ab&c'' (0 + 2) = CHR ''&''" by code_simp
  have e2: "HTML_ESCAPES ! (HTML_ESCAPE_TABLE ! of_char (CHR ''&'')) = ''&amp;''" by code_simp
  have p1: "bufput_cap full_buffer ''ab'' = Some full_buffer"
    by (simp add: bufput_cap_def bufgrow_def full_buffer_def BUFFER_MAX_ALLOC_SIZE_def)
  have p2: "bufputs_cap full_buffer ''&amp;'' = Some full_buffer"
    by (simp add: bufputs_cap_def bufput_cap_def bufgrow_def full_buffer_def BUFFER_MAX_ALLOC_SIZE_def)
  have p3: "bufput_cap full_buffer ''c'' = Some (full_buffer\<lparr>buf_data := buf_data full_buffer @ ''c''\<rparr>)"
    by (simp add: bufput_cap_def full_buffer_def)
  have l3: "houdini_escape_html0_loop full_buffer ''ab&c'' 0 4 True (2 + 1)
            = Some (full_buffer\<lparr>buf_data := buf_data full_buffer @ ''c''\<rparr>)"
  proof (rule houdini_escape_html0_loop_last[OF _ s3])
    show "2 + 1 < (4::nat)" by simp
    show "(if 2 + 1 < (4::nat) then bufput_cap full_buffer (view ''ab&c'' (0 + (2 + 1)) (4 - (2 + 1)))
           else Some full_buffer)
          = Some (full_buffer\<lparr>buf_data := buf_data full_buffer @ ''c''\<rparr>)"
      unfolding v3 p3 by simp
    show "(4::nat) \<le> 4" by simp
  qed
  have l0: "houdini_escape_html0_loop full_buffer ''ab&c'' 0 4 True 0
            = houdini_escape_html0_loop full_buffer ''ab&c'' 0 4 True (2 + 1)"
  proof (rule houdini_escape_html0_loop_next[OF _ s0])
    show "0 < (4::nat)" by simp
    show "(if 0 < (2::nat) then bufput_cap full_buffer (view ''ab&c'' (0 + 0) (2 - 0))
           else Some full_buffer) = Some full_buffer"
      unfolding v0 p1 by simp
    show "2 < (4::nat)" by simp
    show "(if rd ''ab&c'' (0 + 2) = CHR ''/'' \<and> \<not> True then bufputc_cap full_buffer CHR ''/''
          else bufputs_cap full_buffer
                 (HTML_ESCAPES ! (HTML_ESCAPE_TABLE ! of_char (rd ''ab&c'' (0 + 2)))))
         = Some full_buffer"
      unfolding r2 e2 p2 by simp
  qed
  have h: "houdini_escape_html0 full_buffer ''ab&c'' 0 4 True
       = Some (full_buffer\<lparr>buf_data := buf_data full_buffer @ ''c''\<rparr>)"
    unfolding houdini_escape_html0_def g using l0 l3 by simp
  have i: "concat (map (html_escape_byte True) (view ''ab&c'' 0 4)) = ''ab&amp;c''"
    by code_simp
  from g h i show ?thesis by blast
qed

section \<open>\<open>bufprefix\<close>\<close>






section \<open>The reference table\<close>








section \<open>The first pass\<close>

text \<open>
  A carriage return that is the last byte of the document: the loop over the line
  endings steps over it and writes nothing.
\<close>

lemma pass1_newlines_final_cr:
  assumes "en + 1 = doc_size" and "rd document en = CR"
  shows "pass1_newlines tx document doc_size en = (tx, doc_size)"
proof -
  have "pass1_newlines tx document doc_size en = pass1_newlines tx document doc_size (en + 1)"
    using assms by (subst pass1_newlines.simps) simp
  also have "\<dots> = (tx, doc_size)"
    using assms(1) by (subst pass1_newlines.simps) simp
  finally show ?thesis .
qed

text \<open>
  C7. The first pass writes one \<open>\n\<close> for the \<open>\r\n\<close> that ends \<open>a\r\n\<close> and one for the
  \<open>\r\<close> inside \<open>a\rb\n\<close>, but none for the \<open>\r\<close> that is the last byte of \<open>a\r\<close>: the
  staging buffer is then \<open>a\<close>, with no line ending.
\<close>

theorem pass1_final_carriage_return_not_written:
  "fst (sd_markdown_render_pass1 [CHR ''a'', CR] plain_parser) = ''a''
   \<and> fst (sd_markdown_render_pass1 [CHR ''a'', CR, NL] plain_parser) = [CHR ''a'', NL]
   \<and> fst (sd_markdown_render_pass1 [CHR ''a'', CR, CHR ''b'', NL] plain_parser)
       = [CHR ''a'', NL, CHR ''b'', NL]"
  by code_simp

theorem pass1_final_carriage_return_not_written_witness:
  "NL \<notin> set (fst (sd_markdown_render_pass1 [CHR ''a'', CR] plain_parser))"
  using pass1_final_carriage_return_not_written by simp



end
